theory Spec2Isabelle
  imports Main
begin

unbundle bit_operations_syntax

section \<open>Python values, errors and the library functions the ledger calls\<close>

text \<open>
  The repository holds two variants of one ledger: \<^verbatim>\<open>bitcoin.py\<close> (blocks with a nonce,
  a compact target and a pool of pending transactions) and \<^verbatim>\<open>blockchain.py\<close> (blocks
  with a proof number and a seven-zero prefix rule). Both keep a block as a Python
  dictionary, so a block is a map from key to value here, and a missing key is a
  \<open>KeyError\<close> of the model as it is of the code.

  A list object lives in a heap and a value of list type is its address: the blocks of
  \<^verbatim>\<open>bitcoin.py\<close> store the pool list itself, not a copy.
\<close>

datatype error = KeyError string | IndexError | TypeError | ValueError

type_synonym addr = nat

datatype pyval = PInt int | PStr string | PList addr

type_synonym block = "string \<rightharpoonup> pyval"

text \<open>
  What the code takes from Python's standard library is a parameter of the model:
  \<^item> \<open>sha256 lib s\<close> is the digest \<^verbatim>\<open>hashlib.sha256(s.encode())\<close>, read as a number;
  \<^item> \<open>str_list lib xs\<close> is \<^verbatim>\<open>str(xs)\<close> for a list of strings;
  \<^item> \<open>json_dumps lib b\<close> is \<^verbatim>\<open>json.dumps(b, sort_keys=True)\<close> for a block.
  Every theorem below holds for every such library. The clock
  (\<^verbatim>\<open>str(datetime.datetime.now())\<close>) is an argument \<open>now\<close> of each operation that reads
  it; \<^verbatim>\<open>time.time()\<close> and \<^verbatim>\<open>print\<close> only report the duration and are left out.
\<close>

record pylib =
  sha256 :: "string \<Rightarrow> nat"
  str_list :: "string list \<Rightarrow> string"
  json_dumps :: "block \<Rightarrow> string"

subsection \<open>Decimal and hexadecimal text\<close>

fun str_nat :: "nat \<Rightarrow> string" where
  "str_nat n =
     (if n < 10 then [''0123456789'' ! n]
      else str_nat (n div 10) @ [''0123456789'' ! (n mod 10)])"

declare str_nat.simps [simp del]

definition str_int :: "int \<Rightarrow> string" where
  \<comment> \<open>\<^verbatim>\<open>str(i)\<close> of a Python integer\<close>
  "str_int i = (if i < 0 then CHR ''-'' # str_nat (nat (- i)) else str_nat (nat i))"

definition hex_chars :: string where
  "hex_chars = ''0123456789abcdef''"

fun hex_str :: "nat \<Rightarrow> string" where
  "hex_str n =
     (if n < 16 then [hex_chars ! n]
      else hex_str (n div 16) @ [hex_chars ! (n mod 16)])"

declare hex_str.simps [simp del]

definition format_064x :: "nat \<Rightarrow> string" where
  \<comment> \<open>\<^verbatim>\<open>'%064x' % n\<close> for \<open>n \<ge> 0\<close>: lowercase hexadecimal, zero-padded to 64 characters\<close>
  "format_064x n = (let s = hex_str n in replicate (64 - length s) CHR ''0'' @ s)"

definition hexdigest :: "nat \<Rightarrow> string" where
  \<comment> \<open>\<^verbatim>\<open>.hexdigest()\<close> of a 256-bit digest: always 64 lowercase hexadecimal characters\<close>
  "hexdigest d = format_064x (d mod 2 ^ 256)"

definition hex_val :: "char \<Rightarrow> nat option" where
  "hex_val c = map_of (zip ''0123456789abcdefABCDEF'' ([0..<16] @ [10..<16])) c"

fun int16_acc :: "int \<Rightarrow> string \<Rightarrow> int option" where
  "int16_acc a [] = Some a"
| "int16_acc a (c # cs) =
     (case hex_val c of None \<Rightarrow> None | Some d \<Rightarrow> int16_acc (a * 16 + int d) cs)"

definition int16 :: "string \<Rightarrow> int option" where
  \<comment> \<open>\<^verbatim>\<open>int(s, 16)\<close> on a string of hexadecimal digits; \<open>None\<close> is Python's ValueError.
      The code applies it to the output of \<^verbatim>\<open>hexdigest\<close> and of \<^verbatim>\<open>'%064x'\<close> only.\<close>
  "int16 s = (if s = [] then None else int16_acc 0 s)"

subsection \<open>Reading a dictionary, formatting a value\<close>

definition getitem :: "block \<Rightarrow> string \<Rightarrow> error + pyval" where
  \<comment> \<open>\<^verbatim>\<open>block[key]\<close>\<close>
  "getitem b key = (case b key of None \<Rightarrow> Inl (KeyError key) | Some v \<Rightarrow> Inr v)"

definition py_str :: "pylib \<Rightarrow> (addr \<Rightarrow> string list) \<Rightarrow> pyval \<Rightarrow> string" where
  \<comment> \<open>what an f-string writes for \<^verbatim>\<open>{v}\<close>\<close>
  "py_str lib h v =
     (case v of PInt i \<Rightarrow> str_int i | PStr s \<Rightarrow> s | PList a \<Rightarrow> str_list lib (h a))"

definition get_previous_block :: "block list \<Rightarrow> error + block" where
  \<comment> \<open>\<^verbatim>\<open>self.chain[-1]\<close>, the same in both files\<close>
  "get_previous_block chn = (if chn = [] then Inl IndexError else Inr (last chn))"

section \<open>bitcoin.py\<close>

record ledger =
  chain_list :: "block list"
  current_transactions :: addr
  heap :: "addr \<Rightarrow> string list"

definition create_block :: "pylib \<Rightarrow> ledger \<Rightarrow> string \<Rightarrow> int \<Rightarrow> string \<Rightarrow> block" where
  "create_block lib self now nonce previous_hash =
     [''index'' \<mapsto> PInt (int (length (chain_list self)) + 1),
      ''timestamp'' \<mapsto> PStr now,
      ''nbits'' \<mapsto> PInt 486604799,
      ''nonce'' \<mapsto> PInt nonce,
      ''previous_hash'' \<mapsto> PStr previous_hash,
      ''transactions'' \<mapsto> PList (current_transactions self),
      ''transactions_hash'' \<mapsto>
         PStr (hexdigest (sha256 lib (str_list lib (heap self (current_transactions self)))))]"

definition bitcoin_init :: "pylib \<Rightarrow> string \<Rightarrow> ledger" where
  \<comment> \<open>\<^verbatim>\<open>__init__\<close>: two fresh lists, the pool at address 0, then the genesis block\<close>
  "bitcoin_init lib now =
     (let self = \<lparr>chain_list = [], current_transactions = 0, heap = (\<lambda>_. [])\<rparr>
      in self\<lparr>chain_list := chain_list self @ [create_block lib self now 1 ''0'']\<rparr>)"

definition bitcoin_hash :: "pylib \<Rightarrow> ledger \<Rightarrow> block \<Rightarrow> error + string" where
  "bitcoin_hash lib self b =
     (case getitem b ''timestamp'' of Inl e \<Rightarrow> Inl e | Inr ts \<Rightarrow>
      case getitem b ''previous_hash'' of Inl e \<Rightarrow> Inl e | Inr ph \<Rightarrow>
      case getitem b ''transactions_hash'' of Inl e \<Rightarrow> Inl e | Inr th \<Rightarrow>
      case getitem b ''nonce'' of Inl e \<Rightarrow> Inl e | Inr n \<Rightarrow>
        Inr (hexdigest (sha256 lib
          (py_str lib (heap self) ts @ py_str lib (heap self) ph
             @ py_str lib (heap self) th @ py_str lib (heap self) n))))"

definition calculate_target :: "int \<Rightarrow> error + int" where
  \<comment> \<open>\<^verbatim>\<open>1 << k\<close> raises ValueError for a negative \<open>k\<close>\<close>
  "calculate_target bits =
     (let ex = drop_bit 24 bits;
          mant = bits AND 16777215
      in if 8 * (ex - 3) < 0 then Inl ValueError
         else (let target_hexstr = format_064x (nat (mant * push_bit (nat (8 * (ex - 3))) 1))
               in case int16 target_hexstr of None \<Rightarrow> Inl ValueError | Some t \<Rightarrow> Inr t))"

partial_function (option) proof_of_work_loop ::
    "pylib \<Rightarrow> ledger \<Rightarrow> int \<Rightarrow> block \<Rightarrow> (error + block) option" where
  "proof_of_work_loop lib self target b =
     (case bitcoin_hash lib self b of Inl e \<Rightarrow> Some (Inl e) | Inr hash_operation \<Rightarrow>
      case int16 hash_operation of None \<Rightarrow> Some (Inl ValueError) | Some v \<Rightarrow>
        if v < target then Some (Inr b)
        else (case getitem b ''nonce'' of Inl e \<Rightarrow> Some (Inl e)
              | Inr (PInt n) \<Rightarrow> proof_of_work_loop lib self target (b(''nonce'' \<mapsto> PInt (n + 1)))
              | Inr _ \<Rightarrow> Some (Inl TypeError)))"

definition bitcoin_proof_of_work ::
    "pylib \<Rightarrow> ledger \<Rightarrow> string \<Rightarrow> (error + block \<times> ledger) option" where
  \<comment> \<open>returns the mined block and the ledger after \<^verbatim>\<open>self.chain.append(block)\<close>;
      \<open>None\<close> when the search never ends\<close>
  "bitcoin_proof_of_work lib self now =
     (case get_previous_block (chain_list self) of Inl e \<Rightarrow> Some (Inl e) | Inr previous_block \<Rightarrow>
      case bitcoin_hash lib self previous_block of Inl e \<Rightarrow> Some (Inl e) | Inr h \<Rightarrow>
        (let b = create_block lib self now 1 h in
         case getitem b ''nbits'' of Inl e \<Rightarrow> Some (Inl e)
         | Inr (PInt bits) \<Rightarrow>
             (case calculate_target bits of Inl e \<Rightarrow> Some (Inl e) | Inr target \<Rightarrow>
              case proof_of_work_loop lib self target b of None \<Rightarrow> None
              | Some (Inl e) \<Rightarrow> Some (Inl e)
              | Some (Inr b') \<Rightarrow> Some (Inr (b', self\<lparr>chain_list := chain_list self @ [b']\<rparr>)))
         | Inr _ \<Rightarrow> Some (Inl TypeError)))"

definition new_transaction :: "ledger \<Rightarrow> string \<Rightarrow> ledger" where
  \<comment> \<open>\<^verbatim>\<open>blockchain.current_transactions.append(tr_str)\<close>: the list object is updated in place\<close>
  "new_transaction self tr_str =
     self\<lparr>heap := (heap self)
        (current_transactions self := heap self (current_transactions self) @ [tr_str])\<rparr>"

definition transactions_of :: "ledger \<Rightarrow> block \<Rightarrow> string list option" where
  \<comment> \<open>the transaction sequence a reader of \<^verbatim>\<open>block['transactions']\<close> sees\<close>
  "transactions_of self b =
     (case b ''transactions'' of Some (PList a) \<Rightarrow> Some (heap self a) | _ \<Rightarrow> None)"

section \<open>The validator, the same text in both files\<close>

text \<open>
  \<^verbatim>\<open>is_chain_valid\<close> is the same text in the two files; only \<^verbatim>\<open>self.hash\<close> differs, so
  it is the argument \<open>hsh\<close>. \<open>check_block\<close> is the body of the loop for one block:
  \<open>Inr False\<close> is one of its two \<^verbatim>\<open>return False\<close>, \<open>Inr True\<close> is reaching the end of
  the body.
\<close>

definition check_block ::
    "(block \<Rightarrow> error + string) \<Rightarrow> pylib \<Rightarrow> block \<Rightarrow> block \<Rightarrow> error + bool" where
  "check_block hsh lib previous_block b =
     (case getitem b ''previous_hash'' of Inl e \<Rightarrow> Inl e | Inr ph \<Rightarrow>
      case hsh previous_block of Inl e \<Rightarrow> Inl e | Inr h \<Rightarrow>
        if ph \<noteq> PStr h then Inr False
        else (case getitem previous_block ''proof'' of Inl e \<Rightarrow> Inl e | Inr previous_proof \<Rightarrow>
              case getitem b ''proof'' of Inl e \<Rightarrow> Inl e | Inr current_proof \<Rightarrow>
              case (current_proof, previous_proof) of
                (PInt c, PInt p) \<Rightarrow>
                  (let hash_operation = hexdigest (sha256 lib (str_int (c ^ 2 - p ^ 2)))
                   in if take 7 hash_operation \<noteq> ''0000000'' then Inr False else Inr True)
              | _ \<Rightarrow> Inl TypeError))"

function is_chain_valid_loop ::
    "(block \<Rightarrow> error + string) \<Rightarrow> pylib \<Rightarrow> block list \<Rightarrow> block \<Rightarrow> nat \<Rightarrow> error + bool" where
  "is_chain_valid_loop hsh lib chn previous_block block_index =
     (if block_index < length chn then
        (let b = chn ! block_index in
         case check_block hsh lib previous_block b of
           Inl e \<Rightarrow> Inl e
         | Inr ok \<Rightarrow> if ok then is_chain_valid_loop hsh lib chn b (block_index + 1)
                     else Inr False)
      else Inr True)"
  by pat_completeness auto
termination
  by (relation "measure (\<lambda>(hsh, lib, chn, previous_block, block_index). length chn - block_index)")
     auto

declare is_chain_valid_loop.simps [simp del]

definition is_chain_valid ::
    "(block \<Rightarrow> error + string) \<Rightarrow> pylib \<Rightarrow> block list \<Rightarrow> error + bool" where
  \<comment> \<open>\<^verbatim>\<open>chain[0]\<close> of an empty list raises IndexError\<close>
  "is_chain_valid hsh lib chn =
     (case chn of [] \<Rightarrow> Inl IndexError
      | previous_block # _ \<Rightarrow> is_chain_valid_loop hsh lib chn previous_block 1)"

definition bitcoin_is_chain_valid :: "pylib \<Rightarrow> ledger \<Rightarrow> block list \<Rightarrow> error + bool" where
  "bitcoin_is_chain_valid lib self chn = is_chain_valid (bitcoin_hash lib self) lib chn"

section \<open>blockchain.py\<close>

text \<open>The only attribute of this variant's ledger is the chain, so the chain is the state.\<close>

definition create_blockchain ::
    "block list \<Rightarrow> string \<Rightarrow> int \<Rightarrow> string \<Rightarrow> block \<times> block list" where
  \<comment> \<open>returns the block and the chain after \<^verbatim>\<open>self.chain.append(block)\<close>\<close>
  "create_blockchain chn now pf previous_hash =
     (let b = [''index'' \<mapsto> PInt (int (length chn) + 1),
               ''timestamp'' \<mapsto> PStr now,
               ''proof'' \<mapsto> PInt pf,
               ''previous_hash'' \<mapsto> PStr previous_hash]
      in (b, chn @ [b]))"

definition blockchain_init :: "string \<Rightarrow> block list" where
  "blockchain_init now = snd (create_blockchain [] now 1 ''0'')"

definition blockchain_hash :: "pylib \<Rightarrow> block \<Rightarrow> error + string" where
  \<comment> \<open>the blocks of this variant hold integers and strings only, which \<^verbatim>\<open>json.dumps\<close> accepts\<close>
  "blockchain_hash lib b = Inr (hexdigest (sha256 lib (json_dumps lib b)))"

partial_function (option) blockchain_proof_of_work_loop ::
    "pylib \<Rightarrow> int \<Rightarrow> int \<Rightarrow> int option" where
  "blockchain_proof_of_work_loop lib previous_proof new_proof =
     (let hash_operation = hexdigest (sha256 lib (str_int (new_proof ^ 2 - previous_proof ^ 2)))
      in if take 7 hash_operation = ''0000000'' then Some new_proof
         else blockchain_proof_of_work_loop lib previous_proof (new_proof + 1))"

definition blockchain_proof_of_work :: "pylib \<Rightarrow> int \<Rightarrow> int option" where
  \<comment> \<open>\<open>None\<close> when the search never ends\<close>
  "blockchain_proof_of_work lib previous_proof =
     blockchain_proof_of_work_loop lib previous_proof 1"

definition mine_block ::
    "pylib \<Rightarrow> block list \<Rightarrow> string \<Rightarrow> (error + block \<times> block list) option" where
  \<comment> \<open>the route \<^verbatim>\<open>/mine_block\<close> of blockchain.py, up to the response it builds\<close>
  "mine_block lib chn now =
     (case get_previous_block chn of Inl e \<Rightarrow> Some (Inl e) | Inr previous_block \<Rightarrow>
      case getitem previous_block ''proof'' of Inl e \<Rightarrow> Some (Inl e)
      | Inr (PInt previous_proof) \<Rightarrow>
          (case blockchain_proof_of_work lib previous_proof of None \<Rightarrow> None
           | Some pf \<Rightarrow>
               (case blockchain_hash lib previous_block of Inl e \<Rightarrow> Some (Inl e)
                | Inr previous_hash \<Rightarrow> Some (Inr (create_blockchain chn now pf previous_hash))))
      | Inr _ \<Rightarrow> Some (Inl TypeError))"

definition blockchain_is_chain_valid :: "pylib \<Rightarrow> block list \<Rightarrow> error + bool" where
  "blockchain_is_chain_valid lib chn = is_chain_valid (blockchain_hash lib) lib chn"

section \<open>The two difficulty tests\<close>

definition nonce_ok :: "pylib \<Rightarrow> ledger \<Rightarrow> int \<Rightarrow> block \<Rightarrow> bool" where
  \<comment> \<open>the test of the mining loop: \<^verbatim>\<open>int(self.hash(block), 16) < target\<close>\<close>
  "nonce_ok lib self target b =
     (case bitcoin_hash lib self b of Inl e \<Rightarrow> False
      | Inr hash_operation \<Rightarrow>
          (case int16 hash_operation of None \<Rightarrow> False | Some v \<Rightarrow> v < target))"

definition nbits_target :: int where
  \<comment> \<open>what \<open>calculate_target\<close> returns for the \<open>nbits\<close> every block carries\<close>
  "nbits_target = 65535 * 2 ^ 208"

definition proof_ok :: "pylib \<Rightarrow> int \<Rightarrow> int \<Rightarrow> bool" where
  \<comment> \<open>the test of blockchain.py, in the mining loop and in the validator\<close>
  "proof_ok lib previous_proof new_proof =
     (take 7 (hexdigest (sha256 lib (str_int (new_proof ^ 2 - previous_proof ^ 2)))) = ''0000000'')"

definition hash_meets_prefix :: "pylib \<Rightarrow> block \<Rightarrow> bool" where
  \<comment> \<open>the second check as the specification words it: the difficulty rule of blockchain.py
      applied to the hash of the block itself\<close>
  "hash_meets_prefix lib b =
     (case blockchain_hash lib b of Inl e \<Rightarrow> False | Inr h \<Rightarrow> take 7 h = ''0000000'')"

section \<open>Sequences of requests\<close>

text \<open>
  The ledger is driven by the routes of the web application. A run is a list of requests,
  applied to a ledger in order; it stops at the first exception, and is \<open>None\<close> when a
  mining search does not end.
\<close>

datatype request = MineBlock string | NewTransaction string

fun bitcoin_requests :: "pylib \<Rightarrow> ledger \<Rightarrow> request list \<Rightarrow> (error + ledger) option" where
  "bitcoin_requests lib self [] = Some (Inr self)"
| "bitcoin_requests lib self (MineBlock now # rs) =
     (case bitcoin_proof_of_work lib self now of None \<Rightarrow> None
      | Some (Inl e) \<Rightarrow> Some (Inl e)
      | Some (Inr (b, self')) \<Rightarrow> bitcoin_requests lib self' rs)"
| "bitcoin_requests lib self (NewTransaction tr_str # rs) =
     bitcoin_requests lib (new_transaction self tr_str) rs"

fun blockchain_requests :: "pylib \<Rightarrow> block list \<Rightarrow> string list \<Rightarrow> (error + block list) option" where
  "blockchain_requests lib chn [] = Some (Inr chn)"
| "blockchain_requests lib chn (now # rs) =
     (case mine_block lib chn now of None \<Rightarrow> None
      | Some (Inl e) \<Rightarrow> Some (Inl e)
      | Some (Inr (b, chn')) \<Rightarrow> blockchain_requests lib chn' rs)"

fun submitted :: "request list \<Rightarrow> string list" where
  \<comment> \<open>the transactions a run submits, in order\<close>
  "submitted [] = []"
| "submitted (MineBlock now # rs) = submitted rs"
| "submitted (NewTransaction tr_str # rs) = tr_str # submitted rs"

fun mining_requests :: "request list \<Rightarrow> nat" where
  \<comment> \<open>how many mining requests a run makes\<close>
  "mining_requests [] = 0"
| "mining_requests (MineBlock now # rs) = Suc (mining_requests rs)"
| "mining_requests (NewTransaction tr_str # rs) = mining_requests rs"

definition pool_shared :: "ledger \<Rightarrow> bool" where
  \<comment> \<open>every block of the chain holds the pool list itself under \<open>transactions\<close>\<close>
  "pool_shared self \<longleftrightarrow>
     (\<forall>b \<in> set (chain_list self). b ''transactions'' = Some (PList (current_transactions self)))"

section \<open>What holds of every ledger the requests reach\<close>

text \<open>
  Two predicates for the proofs: the blocks of a bitcoin.py chain have the fields the hash
  reads and each stores the hash of its predecessor; each block of a blockchain.py chain
  passes the validator's loop body against its predecessor.
\<close>

definition sealed_block :: "block \<Rightarrow> bool" where
  \<comment> \<open>the keys and types \<open>create_block\<close> writes and \<open>bitcoin_hash\<close> reads; no key \<open>proof\<close>\<close>
  "sealed_block b \<longleftrightarrow>
     (\<exists>ts ph th n. b ''timestamp'' = Some (PStr ts) \<and> b ''previous_hash'' = Some (PStr ph)
        \<and> b ''transactions_hash'' = Some (PStr th) \<and> b ''nonce'' = Some (PInt n))
     \<and> b ''proof'' = None"

definition bitcoin_linked :: "pylib \<Rightarrow> ledger \<Rightarrow> bool" where
  "bitcoin_linked lib self \<longleftrightarrow>
     chain_list self \<noteq> [] \<and> (\<forall>b \<in> set (chain_list self). sealed_block b)
     \<and> (\<forall>i. 0 < i \<and> i < length (chain_list self) \<longrightarrow>
           (\<exists>h. bitcoin_hash lib self (chain_list self ! (i - 1)) = Inr h
              \<and> (chain_list self ! i) ''previous_hash'' = Some (PStr h)))"

definition blockchain_linked :: "pylib \<Rightarrow> block list \<Rightarrow> bool" where
  "blockchain_linked lib chn \<longleftrightarrow>
     chn \<noteq> [] \<and> (\<exists>p. last chn ''proof'' = Some (PInt p))
     \<and> (\<forall>i. 0 < i \<and> i < length chn \<longrightarrow>
           check_block (blockchain_hash lib) lib (chn ! (i - 1)) (chn ! i) = Inr True)"

section \<open>A small library for examples\<close>

text \<open>
  The examples run the ledger on a library whose digest is small enough to evaluate:
  the digest of a string is decided by the sum of its character codes modulo 5, and meets
  both difficulty rules exactly when that sum is a multiple of 5. \<open>simple_str_list\<close> and
  \<open>simple_json_dumps\<close> write what Python writes for the strings and blocks of the examples
  (no quote, backslash or control character; the four keys of a blockchain.py block).
\<close>

definition example_sha256 :: "string \<Rightarrow> nat" where
  "example_sha256 s = (sum_list (map of_char s) mod 5) * 2 ^ 253"

fun join_comma :: "string list \<Rightarrow> string" where
  "join_comma [] = []"
| "join_comma [x] = x"
| "join_comma (x # y # ys) = x @ '', '' @ join_comma (y # ys)"

definition py_quote :: "string \<Rightarrow> string" where
  "py_quote s = [CHR 0x27] @ s @ [CHR 0x27]"

definition simple_str_list :: "string list \<Rightarrow> string" where
  "simple_str_list xs = ''['' @ join_comma (map py_quote xs) @ '']''"

definition json_quote :: "string \<Rightarrow> string" where
  "json_quote s = [CHR 0x22] @ s @ [CHR 0x22]"

definition json_value :: "pyval option \<Rightarrow> string" where
  "json_value v =
     (case v of Some (PInt i) \<Rightarrow> str_int i | Some (PStr s) \<Rightarrow> json_quote s | _ \<Rightarrow> ''null'')"

definition simple_json_dumps :: "block \<Rightarrow> string" where
  "simple_json_dumps b =
     ''{'' @ json_quote ''index'' @ '': '' @ json_value (b ''index'') @ '', ''
         @ json_quote ''previous_hash'' @ '': '' @ json_value (b ''previous_hash'') @ '', ''
         @ json_quote ''proof'' @ '': '' @ json_value (b ''proof'') @ '', ''
         @ json_quote ''timestamp'' @ '': '' @ json_value (b ''timestamp'') @ ''}''"

definition example_lib :: pylib where
  "example_lib =
     \<lparr>sha256 = example_sha256, str_list = simple_str_list, json_dumps = simple_json_dumps\<rparr>"

subsection \<open>Example ledgers\<close>

text \<open>
  The ledgers the examples reach, written out. The clock reads
  \<^verbatim>\<open>2021-05-05 10:00:00.000001\<close> at construction, \<^verbatim>\<open>10:00:07.000003\<close> at the first
  mining request and \<^verbatim>\<open>10:00:09.000004\<close> at the second.
\<close>

definition genesis_example :: block where
  "genesis_example =
     [''index'' \<mapsto> PInt 1,
      ''timestamp'' \<mapsto> PStr ''2021-05-05 10:00:00.000001'',
      ''nbits'' \<mapsto> PInt 486604799,
      ''nonce'' \<mapsto> PInt 1,
      ''previous_hash'' \<mapsto> PStr ''0'',
      ''transactions'' \<mapsto> PList 0,
      ''transactions_hash'' \<mapsto>
         PStr ''8000000000000000000000000000000000000000000000000000000000000000'']"

definition mined_example :: block where
  \<comment> \<open>mined on the fresh ledger, the pool empty\<close>
  "mined_example =
     [''index'' \<mapsto> PInt 2,
      ''timestamp'' \<mapsto> PStr ''2021-05-05 10:00:07.000003'',
      ''nbits'' \<mapsto> PInt 486604799,
      ''nonce'' \<mapsto> PInt 4,
      ''previous_hash'' \<mapsto>
         PStr ''6000000000000000000000000000000000000000000000000000000000000000'',
      ''transactions'' \<mapsto> PList 0,
      ''transactions_hash'' \<mapsto>
         PStr ''8000000000000000000000000000000000000000000000000000000000000000'']"

definition sealed_example :: block where
  \<comment> \<open>mined with \<open>tx1\<close> in the pool\<close>
  "sealed_example =
     [''index'' \<mapsto> PInt 2,
      ''timestamp'' \<mapsto> PStr ''2021-05-05 10:00:07.000003'',
      ''nbits'' \<mapsto> PInt 486604799,
      ''nonce'' \<mapsto> PInt 3,
      ''previous_hash'' \<mapsto>
         PStr ''6000000000000000000000000000000000000000000000000000000000000000'',
      ''transactions'' \<mapsto> PList 0,
      ''transactions_hash'' \<mapsto>
         PStr ''4000000000000000000000000000000000000000000000000000000000000000'']"

definition resealed_example :: block where
  \<comment> \<open>mined next, \<open>tx1\<close> still in the pool\<close>
  "resealed_example =
     [''index'' \<mapsto> PInt 3,
      ''timestamp'' \<mapsto> PStr ''2021-05-05 10:00:09.000004'',
      ''nbits'' \<mapsto> PInt 486604799,
      ''nonce'' \<mapsto> PInt 1,
      ''previous_hash'' \<mapsto>
         PStr ''0000000000000000000000000000000000000000000000000000000000000000'',
      ''transactions'' \<mapsto> PList 0,
      ''transactions_hash'' \<mapsto>
         PStr ''4000000000000000000000000000000000000000000000000000000000000000'']"

definition fresh_ledger :: ledger where
  "fresh_ledger = \<lparr>chain_list = [genesis_example], current_transactions = 0, heap = (\<lambda>_. [])\<rparr>"

definition mined_ledger :: ledger where
  "mined_ledger =
     \<lparr>chain_list = [genesis_example, mined_example], current_transactions = 0,
      heap = (\<lambda>_. [])\<rparr>"

definition pending_ledger :: ledger where
  "pending_ledger =
     \<lparr>chain_list = [genesis_example], current_transactions = 0,
      heap = (\<lambda>_. [])(0 := [''tx1''])\<rparr>"

definition sealed_ledger :: ledger where
  "sealed_ledger =
     \<lparr>chain_list = [genesis_example, sealed_example], current_transactions = 0,
      heap = (\<lambda>_. [])(0 := [''tx1''])\<rparr>"

definition resealed_ledger :: ledger where
  "resealed_ledger =
     \<lparr>chain_list = [genesis_example, sealed_example, resealed_example],
      current_transactions = 0, heap = (\<lambda>_. [])(0 := [''tx1''])\<rparr>"

definition genesis_example2 :: block where
  "genesis_example2 =
     [''index'' \<mapsto> PInt 1,
      ''timestamp'' \<mapsto> PStr ''2021-05-05 10:00:00.000001'',
      ''proof'' \<mapsto> PInt 1,
      ''previous_hash'' \<mapsto> PStr ''0'']"

definition mined_example2 :: block where
  "mined_example2 =
     [''index'' \<mapsto> PInt 2,
      ''timestamp'' \<mapsto> PStr ''2021-05-05 10:00:07.000003'',
      ''proof'' \<mapsto> PInt 8,
      ''previous_hash'' \<mapsto>
         PStr ''0000000000000000000000000000000000000000000000000000000000000000'']"

section \<open>Facts about the text functions\<close>

lemma hex_val_digits: "list_all (\<lambda>d. hex_val (hex_chars ! d) = Some d) [0..<16]"
  by code_simp

lemma hex_val_hex_chars: "d < 16 \<Longrightarrow> hex_val (hex_chars ! d) = Some d"
  using hex_val_digits by (simp add: list_all_iff)

lemma hex_val_zero: "hex_val CHR ''0'' = Some 0"
  by code_simp

lemma int16_acc_append:
  "int16_acc a (xs @ ys) = (case int16_acc a xs of None \<Rightarrow> None | Some a' \<Rightarrow> int16_acc a' ys)"
  by (induction xs arbitrary: a) (auto split: option.splits)

lemma int16_acc_hex_str: "int16_acc 0 (hex_str n) = Some (int n)"
proof (induction n rule: hex_str.induct)
  case (1 n)
  show ?case
  proof (cases "n < 16")
    case True
    then show ?thesis
      by (subst hex_str.simps) (simp add: hex_val_hex_chars)
  next
    case False
    have "int16_acc 0 (hex_str n) = int16_acc 0 (hex_str (n div 16) @ [hex_chars ! (n mod 16)])"
      using False by (subst hex_str.simps) simp
    also have "\<dots> = Some (int (n div 16) * 16 + int (n mod 16))"
      using 1 [OF False] by (simp add: int16_acc_append hex_val_hex_chars)
    also have "int (n div 16) * 16 + int (n mod 16) = int n"
      by (simp add: zdiv_int zmod_int)
    finally show ?thesis .
  qed
qed

lemma hex_str_not_Nil: "hex_str n \<noteq> []"
  by (subst hex_str.simps) simp

lemma int16_acc_zeros: "int16_acc 0 (replicate k CHR ''0'' @ s) = int16_acc 0 s"
  by (induction k) (simp_all add: hex_val_zero)

lemma int16_format_064x: "int16 (format_064x n) = Some (int n)"
  by (simp add: int16_def format_064x_def Let_def hex_str_not_Nil int16_acc_zeros int16_acc_hex_str)

lemma int16_hexdigest: "int16 (hexdigest d) = Some (int (d mod 2 ^ 256))"
  by (simp add: hexdigest_def int16_format_064x del: of_nat_mod)

lemma calculate_target_eq:
  "calculate_target bits =
     (if drop_bit 24 bits < 3 then Inl ValueError
      else Inr ((bits AND 16777215) * 2 ^ nat (8 * (drop_bit 24 bits - 3))))"
proof -
  have "0 \<le> bits AND 16777215" by simp
  then have "int (nat ((bits AND 16777215) * push_bit k 1)) = (bits AND 16777215) * 2 ^ k" for k
    by (simp add: push_bit_eq_mult)
  then show ?thesis
    by (simp add: calculate_target_def Let_def int16_format_064x)
qed

lemma calculate_target_nbits: "calculate_target 486604799 = Inr nbits_target"
  by (simp add: calculate_target_eq nbits_target_def)

section \<open>The mining search of bitcoin.py\<close>

lemma bitcoin_hash_create_block:
  "bitcoin_hash lib self (create_block lib self' now n h) =
     Inr (hexdigest (sha256 lib
       (now @ h @ hexdigest (sha256 lib (str_list lib (heap self' (current_transactions self'))))
          @ str_int n)))"
  by (simp add: bitcoin_hash_def create_block_def getitem_def py_str_def)

lemma create_block_nonce:
  "(create_block lib self now n h)(''nonce'' \<mapsto> PInt m) = create_block lib self now m h"
  by (rule ext) (simp add: create_block_def)

lemma create_block_getitem_nonce: "getitem (create_block lib self now n h) ''nonce'' = Inr (PInt n)"
  by (simp add: create_block_def getitem_def)

lemma create_block_getitem_nbits:
  "getitem (create_block lib self now n h) ''nbits'' = Inr (PInt 486604799)"
  by (simp add: create_block_def getitem_def)

lemma nonce_ok_create_block:
  "nonce_ok lib self target (create_block lib self' now n h) \<longleftrightarrow>
     int (sha256 lib (now @ h
        @ hexdigest (sha256 lib (str_list lib (heap self' (current_transactions self'))))
        @ str_int n) mod 2 ^ 256) < target"
  by (simp add: nonce_ok_def bitcoin_hash_create_block int16_hexdigest del: of_nat_mod)

lemma proof_of_work_loop_step:
  "proof_of_work_loop lib self target (create_block lib self now n h) =
     (if nonce_ok lib self target (create_block lib self now n h)
      then Some (Inr (create_block lib self now n h))
      else proof_of_work_loop lib self target (create_block lib self now (n + 1) h))"
  by (subst proof_of_work_loop.simps)
     (simp add: nonce_ok_def bitcoin_hash_create_block int16_hexdigest create_block_nonce
        create_block_getitem_nonce del: of_nat_mod)

lemma proof_of_work_loop_least:
  "nonce_ok lib self target (create_block lib self now (n + int k) h) \<Longrightarrow>
   (\<And>j. j < k \<Longrightarrow> \<not> nonce_ok lib self target (create_block lib self now (n + int j) h)) \<Longrightarrow>
   proof_of_work_loop lib self target (create_block lib self now n h) =
     Some (Inr (create_block lib self now (n + int k) h))"
proof (induction k arbitrary: n)
  case 0
  then show ?case by (subst proof_of_work_loop_step) simp
next
  case (Suc k)
  have first: "\<not> nonce_ok lib self target (create_block lib self now n h)"
    using Suc.prems(2) [of 0] by simp
  have "proof_of_work_loop lib self target (create_block lib self now (n + 1) h) =
          Some (Inr (create_block lib self now (n + 1 + int k) h))"
  proof (rule Suc.IH)
    show "nonce_ok lib self target (create_block lib self now (n + 1 + int k) h)"
      using Suc.prems(1) by (simp add: add.assoc)
    show "\<not> nonce_ok lib self target (create_block lib self now (n + 1 + int j) h)" if "j < k" for j
      using Suc.prems(2) [of "Suc j"] that by (simp add: add.assoc)
  qed
  then show ?case
    using first by (subst proof_of_work_loop_step) (simp add: add.assoc)
qed

lemma proof_of_work_loop_sound:
  assumes "proof_of_work_loop lib self target b = Some r"
  shows "\<forall>n now h. b = create_block lib self now n h \<longrightarrow>
     (\<exists>k. r = Inr (create_block lib self now (n + int k) h)
         \<and> nonce_ok lib self target (create_block lib self now (n + int k) h)
         \<and> (\<forall>j<k. \<not> nonce_ok lib self target (create_block lib self now (n + int j) h)))"
proof -
  define P where "P = (\<lambda>lib self target (b :: block) (r :: error + block).
     \<forall>n now h. b = create_block lib self now n h \<longrightarrow>
       (\<exists>k. r = Inr (create_block lib self now (n + int k) h)
           \<and> nonce_ok lib self target (create_block lib self now (n + int k) h)
           \<and> (\<forall>j<k. \<not> nonce_ok lib self target (create_block lib self now (n + int j) h))))"
  have "P lib self target b r"
  proof (rule proof_of_work_loop.raw_induct [where P = P, OF _ assms])
    fix f lib self target b r
    assume IH: "\<And>lib self target b r. f lib self target b = Some r \<Longrightarrow> P lib self target b r"
      and body: "(case bitcoin_hash lib self b of Inl e \<Rightarrow> Some (Inl e)
        | Inr hash_operation \<Rightarrow>
            case int16 hash_operation of None \<Rightarrow> Some (Inl ValueError)
            | Some v \<Rightarrow>
                if v < target then Some (Inr b)
                else case getitem b ''nonce'' of Inl e \<Rightarrow> Some (Inl e)
                     | Inr (PInt n) \<Rightarrow> f lib self target (b(''nonce'' \<mapsto> PInt (n + 1)))
                     | Inr _ \<Rightarrow> Some (Inl TypeError)) = Some r"
    show "P lib self target b r"
      unfolding P_def
    proof (intro allI impI)
      fix n now h
      assume b: "b = create_block lib self now n h"
      let ?T = "\<lambda>m. create_block lib self now m h"
      note evals = nonce_ok_create_block bitcoin_hash_create_block int16_hexdigest
        create_block_nonce create_block_getitem_nonce
      show "\<exists>k. r = Inr (?T (n + int k)) \<and> nonce_ok lib self target (?T (n + int k))
              \<and> (\<forall>j<k. \<not> nonce_ok lib self target (?T (n + int j)))"
      proof (cases "nonce_ok lib self target (?T n)")
        case True
        with body have "r = Inr (?T (n + int 0))"
          unfolding b by (simp add: evals del: of_nat_mod)
        with True show ?thesis by (intro exI [of _ 0]) simp
      next
        case False
        with body have step: "f lib self target (?T (n + 1)) = Some r"
          unfolding b by (simp add: evals del: of_nat_mod)
        from IH [OF step, unfolded P_def, rule_format, OF refl]
        obtain k where k: "r = Inr (?T (n + 1 + int k))"
            "nonce_ok lib self target (?T (n + 1 + int k))"
            "\<forall>j<k. \<not> nonce_ok lib self target (?T (n + 1 + int j))"
          by blast
        have "\<not> nonce_ok lib self target (?T (n + int j))" if "j < Suc k" for j
        proof (cases j)
          case 0
          with False show ?thesis by simp
        next
          case (Suc j')
          with that k(3) show ?thesis by (simp add: add.assoc)
        qed
        with k(1,2) show ?thesis
          by (intro exI [of _ "Suc k"]) (simp add: add.assoc)
      qed
    qed
  qed
  then show ?thesis by (simp only: P_def)
qed

lemma bitcoin_proof_of_work_eq:
  assumes "get_previous_block (chain_list self) = Inr p" and "bitcoin_hash lib self p = Inr h"
  shows "bitcoin_proof_of_work lib self now =
     (case proof_of_work_loop lib self nbits_target (create_block lib self now 1 h) of
        None \<Rightarrow> None
      | Some (Inl e) \<Rightarrow> Some (Inl e)
      | Some (Inr b') \<Rightarrow> Some (Inr (b', self\<lparr>chain_list := chain_list self @ [b']\<rparr>)))"
  using assms
  by (simp add: bitcoin_proof_of_work_def Let_def calculate_target_nbits create_block_getitem_nbits)

lemma bitcoin_proof_of_work_least:
  assumes "get_previous_block (chain_list self) = Inr p" and "bitcoin_hash lib self p = Inr h"
  shows "bitcoin_proof_of_work lib self now = Some r \<longleftrightarrow>
     (\<exists>n. 1 \<le> n
        \<and> r = Inr (create_block lib self now n h,
                   self\<lparr>chain_list := chain_list self @ [create_block lib self now n h]\<rparr>)
        \<and> nonce_ok lib self nbits_target (create_block lib self now n h)
        \<and> (\<forall>m. 1 \<le> m \<and> m < n \<longrightarrow>
              \<not> nonce_ok lib self nbits_target (create_block lib self now m h)))"
    (is "?L \<longleftrightarrow> ?R")
proof
  let ?T = "\<lambda>m. create_block lib self now m h"
  let ?ok = "\<lambda>m. nonce_ok lib self nbits_target (?T m)"
  assume ?L
  then obtain r' where loop: "proof_of_work_loop lib self nbits_target (?T 1) = Some r'"
    by (cases "proof_of_work_loop lib self nbits_target (?T 1)")
       (simp_all add: bitcoin_proof_of_work_eq [OF assms])
  from proof_of_work_loop_sound [OF this, rule_format, OF refl] obtain k where k: "r' = Inr (?T (1 + int k))"
      "?ok (1 + int k)" "\<forall>j<k. \<not> ?ok (1 + int j)"
    by blast
  have "\<not> ?ok m" if "1 \<le> m \<and> m < 1 + int k" for m
  proof -
    from that have less: "nat (m - 1) < k" and m: "1 + int (nat (m - 1)) = m" by auto
    from k(3) [rule_format, OF less] show ?thesis unfolding m .
  qed
  moreover have "r = Inr (?T (1 + int k), self\<lparr>chain_list := chain_list self @ [?T (1 + int k)]\<rparr>)"
    using \<open>?L\<close> unfolding bitcoin_proof_of_work_eq [OF assms] loop k(1) by simp
  ultimately show ?R
    using k(2) by (intro exI [of _ "1 + int k"]) simp
next
  let ?T = "\<lambda>m. create_block lib self now m h"
  let ?ok = "\<lambda>m. nonce_ok lib self nbits_target (?T m)"
  assume ?R
  then obtain n where n: "1 \<le> n" "r = Inr (?T n, self\<lparr>chain_list := chain_list self @ [?T n]\<rparr>)"
      "?ok n" "\<forall>m. 1 \<le> m \<and> m < n \<longrightarrow> \<not> ?ok m"
    by blast
  define k where "k = nat (n - 1)"
  have nk: "n = 1 + int k" using n(1) by (simp add: k_def)
  have "proof_of_work_loop lib self nbits_target (?T 1) = Some (Inr (?T (1 + int k)))"
  proof (rule proof_of_work_loop_least)
    show "?ok (1 + int k)" using n(3) nk by simp
    show "\<not> ?ok (1 + int j)" if "j < k" for j
      using n(4) that nk by simp
  qed
  then show ?L
    unfolding bitcoin_proof_of_work_eq [OF assms] n(2) nk by simp
qed


section \<open>The mining search of blockchain.py\<close>

lemma blockchain_proof_of_work_loop_step:
  "blockchain_proof_of_work_loop lib previous_proof n =
     (if proof_ok lib previous_proof n then Some n
      else blockchain_proof_of_work_loop lib previous_proof (n + 1))"
  by (subst blockchain_proof_of_work_loop.simps) (simp add: proof_ok_def Let_def)

lemma blockchain_proof_of_work_loop_least:
  "proof_ok lib previous_proof (n + int k) \<Longrightarrow>
   (\<And>j. j < k \<Longrightarrow> \<not> proof_ok lib previous_proof (n + int j)) \<Longrightarrow>
   blockchain_proof_of_work_loop lib previous_proof n = Some (n + int k)"
proof (induction k arbitrary: n)
  case 0
  then show ?case by (subst blockchain_proof_of_work_loop_step) simp
next
  case (Suc k)
  have first: "\<not> proof_ok lib previous_proof n"
    using Suc.prems(2) [of 0] by simp
  have "blockchain_proof_of_work_loop lib previous_proof (n + 1) = Some (n + 1 + int k)"
  proof (rule Suc.IH)
    show "proof_ok lib previous_proof (n + 1 + int k)"
      using Suc.prems(1) by (simp add: add.assoc)
    show "\<not> proof_ok lib previous_proof (n + 1 + int j)" if "j < k" for j
      using Suc.prems(2) [of "Suc j"] that by (simp add: add.assoc)
  qed
  then show ?case
    using first by (subst blockchain_proof_of_work_loop_step) (simp add: add.assoc)
qed

lemma blockchain_proof_of_work_loop_sound:
  assumes "blockchain_proof_of_work_loop lib previous_proof n = Some r"
  shows "\<exists>k. r = n + int k \<and> proof_ok lib previous_proof r
           \<and> (\<forall>j<k. \<not> proof_ok lib previous_proof (n + int j))"
proof -
  define P where "P = (\<lambda>lib previous_proof n r.
     \<exists>k. r = n + int k \<and> proof_ok lib previous_proof r
        \<and> (\<forall>j<k. \<not> proof_ok lib previous_proof (n + int j)))"
  have "P lib previous_proof n r"
  proof (rule blockchain_proof_of_work_loop.raw_induct [where P = P, OF _ assms])
    fix f lib previous_proof n r
    assume IH: "\<And>lib previous_proof n r. f lib previous_proof n = Some r \<Longrightarrow> P lib previous_proof n r"
      and body: "(let hash_operation =
                    hexdigest (sha256 lib (str_int (n ^ 2 - previous_proof ^ 2)))
         in if take 7 hash_operation = ''0000000'' then Some n
            else f lib previous_proof (n + 1)) = Some r"
    show "P lib previous_proof n r"
    proof (cases "proof_ok lib previous_proof n")
      case True
      with body have "r = n + int 0" by (simp add: proof_ok_def Let_def)
      with True show ?thesis unfolding P_def by (intro exI [of _ 0]) simp
    next
      case False
      with body have "f lib previous_proof (n + 1) = Some r"
        by (simp add: proof_ok_def Let_def)
      from IH [OF this, unfolded P_def]
      obtain k where k: "r = n + 1 + int k" "proof_ok lib previous_proof r"
          "\<forall>j<k. \<not> proof_ok lib previous_proof (n + 1 + int j)"
        by blast
      have "\<not> proof_ok lib previous_proof (n + int j)" if "j < Suc k" for j
      proof (cases j)
        case 0
        with False show ?thesis by simp
      next
        case (Suc j')
        with that k(3) show ?thesis by (simp add: add.assoc)
      qed
      with k(1,2) show ?thesis
        unfolding P_def by (intro exI [of _ "Suc k"]) (simp add: add.assoc)
    qed
  qed
  then show ?thesis by (simp only: P_def)
qed

lemma blockchain_proof_of_work_least:
  "blockchain_proof_of_work lib previous_proof = Some n \<longleftrightarrow>
     1 \<le> n \<and> proof_ok lib previous_proof n
       \<and> (\<forall>m. 1 \<le> m \<and> m < n \<longrightarrow> \<not> proof_ok lib previous_proof m)"
    (is "?L \<longleftrightarrow> ?R")
proof
  assume ?L
  then have "blockchain_proof_of_work_loop lib previous_proof 1 = Some n"
    by (simp add: blockchain_proof_of_work_def)
  from blockchain_proof_of_work_loop_sound [OF this]
  obtain k where k: "n = 1 + int k" "proof_ok lib previous_proof n"
      "\<forall>j<k. \<not> proof_ok lib previous_proof (1 + int j)"
    by blast
  have "\<not> proof_ok lib previous_proof m" if "1 \<le> m \<and> m < n" for m
  proof -
    from that k(1) have less: "nat (m - 1) < k" and m: "1 + int (nat (m - 1)) = m" by auto
    from k(3) [rule_format, OF less] show ?thesis unfolding m .
  qed
  with k(1,2) show ?R by simp
next
  assume r: ?R
  define k where "k = nat (n - 1)"
  have nk: "n = 1 + int k" using r by (simp add: k_def)
  have "blockchain_proof_of_work_loop lib previous_proof 1 = Some (1 + int k)"
  proof (rule blockchain_proof_of_work_loop_least)
    show "proof_ok lib previous_proof (1 + int k)" using r nk by simp
    show "\<not> proof_ok lib previous_proof (1 + int j)" if "j < k" for j
      using r that nk by simp
  qed
  then show ?L
    unfolding blockchain_proof_of_work_def nk .
qed


section \<open>The validator's pass\<close>

lemma interval_split:
  "i < n \<Longrightarrow> (\<forall>j. i \<le> j \<and> j < n \<longrightarrow> Q j) \<longleftrightarrow> Q i \<and> (\<forall>j. i + 1 \<le> j \<and> j < n \<longrightarrow> Q j)"
  for i n :: nat
proof (intro iffI conjI allI impI)
  assume all: "\<forall>j. i \<le> j \<and> j < n \<longrightarrow> Q j" and "i < n"
  then show "Q i" by simp
  fix j assume "i + 1 \<le> j \<and> j < n"
  with all show "Q j" by simp
next
  fix j
  assume "Q i \<and> (\<forall>j. i + 1 \<le> j \<and> j < n \<longrightarrow> Q j)" and j: "i \<le> j \<and> j < n"
  then show "Q j" by (cases "j = i") simp_all
qed

lemma is_chain_valid_loop_unfold:
  "block_index < length chn \<Longrightarrow>
   is_chain_valid_loop hsh lib chn previous_block block_index =
     (case check_block hsh lib previous_block (chn ! block_index) of
        Inl e \<Rightarrow> Inl e
      | Inr ok \<Rightarrow> if ok then is_chain_valid_loop hsh lib chn (chn ! block_index) (block_index + 1)
                  else Inr False)"
  by (subst is_chain_valid_loop.simps) (simp add: Let_def)

lemma is_chain_valid_loop_end:
  "\<not> block_index < length chn \<Longrightarrow>
   is_chain_valid_loop hsh lib chn previous_block block_index = Inr True"
  by (subst is_chain_valid_loop.simps) simp

lemma is_chain_valid_loop_True:
  "0 < i \<Longrightarrow> prev = chn ! (i - 1) \<Longrightarrow>
   is_chain_valid_loop hsh lib chn prev i = Inr True \<longleftrightarrow>
     (\<forall>j. i \<le> j \<and> j < length chn \<longrightarrow>
        check_block hsh lib (chn ! (j - 1)) (chn ! j) = Inr True)"
proof (induction hsh lib chn prev i rule: is_chain_valid_loop.induct)
  case (1 hsh lib chn prev i)
  let ?c = "\<lambda>j. check_block hsh lib (chn ! (j - 1)) (chn ! j)"
  have prev: "check_block hsh lib prev (chn ! i) = ?c i"
    using "1.prems" by simp
  show ?case
  proof (cases "i < length chn")
    case False
    then show ?thesis by (auto simp: is_chain_valid_loop_end)
  next
    case True
    note unfold = is_chain_valid_loop_unfold [OF True, of hsh lib prev, unfolded prev]
    note split = interval_split [OF True, of "\<lambda>j. ?c j = Inr True"]
    show ?thesis
    proof (cases "?c i = Inr True")
      case yes: True
      have "is_chain_valid_loop hsh lib chn (chn ! i) (i + 1) = Inr True \<longleftrightarrow>
              (\<forall>j. i + 1 \<le> j \<and> j < length chn \<longrightarrow> ?c j = Inr True)"
        by (rule "1.IH" [OF True refl, of True]) (use prev yes in simp_all)
      then show ?thesis
        unfolding unfold split yes by simp
    next
      case no: False
      then have "is_chain_valid_loop hsh lib chn prev i \<noteq> Inr True"
        unfolding unfold by (cases "?c i") auto
      moreover have "\<not> (\<forall>j. i \<le> j \<and> j < length chn \<longrightarrow> ?c j = Inr True)"
        unfolding split using no by simp
      ultimately show ?thesis by simp
    qed
  qed
qed

lemma is_chain_valid_loop_stop:
  "0 < i \<Longrightarrow> prev = chn ! (i - 1) \<Longrightarrow> r \<noteq> Inr True \<Longrightarrow>
   is_chain_valid_loop hsh lib chn prev i = r \<longleftrightarrow>
     (\<exists>j. i \<le> j \<and> j < length chn
        \<and> check_block hsh lib (chn ! (j - 1)) (chn ! j) = r
        \<and> (\<forall>k. i \<le> k \<and> k < j \<longrightarrow>
              check_block hsh lib (chn ! (k - 1)) (chn ! k) = Inr True))"
proof (induction hsh lib chn prev i rule: is_chain_valid_loop.induct)
  case (1 hsh lib chn prev i)
  let ?c = "\<lambda>j. check_block hsh lib (chn ! (j - 1)) (chn ! j)"
  let ?stop = "\<lambda>i. \<exists>j. i \<le> j \<and> j < length chn \<and> ?c j = r
                 \<and> (\<forall>k. i \<le> k \<and> k < j \<longrightarrow> ?c k = Inr True)"
  have prev: "check_block hsh lib prev (chn ! i) = ?c i"
    using "1.prems" by simp
  show ?case
  proof (cases "i < length chn")
    case False
    then have "is_chain_valid_loop hsh lib chn prev i = Inr True"
      by (rule is_chain_valid_loop_end)
    moreover have "\<not> ?stop i" using False by auto
    ultimately show ?thesis using \<open>r \<noteq> Inr True\<close> by auto
  next
    case True
    note unfold = is_chain_valid_loop_unfold [OF True, of hsh lib prev, unfolded prev]
    show ?thesis
    proof (cases "?c i = Inr True")
      case yes: True
      have IH: "is_chain_valid_loop hsh lib chn (chn ! i) (i + 1) = r \<longleftrightarrow> ?stop (i + 1)"
        by (rule "1.IH" [OF True refl, of True]) (use prev yes "1.prems" in simp_all)
      have "?stop i \<longleftrightarrow> ?stop (i + 1)"
      proof
        assume "?stop i"
        then obtain j where j: "i \<le> j" "j < length chn" "?c j = r"
            "\<forall>k. i \<le> k \<and> k < j \<longrightarrow> ?c k = Inr True"
          by blast
        from j(3) yes \<open>r \<noteq> Inr True\<close> have "j \<noteq> i" by auto
        with j(1) have "i + 1 \<le> j" by simp
        moreover have "\<forall>k. i + 1 \<le> k \<and> k < j \<longrightarrow> ?c k = Inr True"
          using j(4) by simp
        ultimately show "?stop (i + 1)" using j(2,3) by blast
      next
        assume "?stop (i + 1)"
        then obtain j where j: "i + 1 \<le> j" "j < length chn" "?c j = r"
            "\<forall>k. i + 1 \<le> k \<and> k < j \<longrightarrow> ?c k = Inr True"
          by blast
        have "?c k = Inr True" if "i \<le> k \<and> k < j" for k
        proof (cases "k = i")
          case True
          with yes show ?thesis by simp
        next
          case False
          with that have "i + 1 \<le> k \<and> k < j" by simp
          with j(4) show ?thesis by blast
        qed
        moreover from j(1) have "i \<le> j" by simp
        ultimately show "?stop i" using j(2,3) by blast
      qed
      with IH show ?thesis
        unfolding unfold yes by simp
    next
      case no: False
      then have now: "is_chain_valid_loop hsh lib chn prev i = ?c i"
        unfolding unfold by (cases "?c i") auto
      have "?stop i \<longleftrightarrow> ?c i = r"
      proof
        assume "?stop i"
        then obtain j where j: "i \<le> j" "j < length chn" "?c j = r"
            "\<forall>k. i \<le> k \<and> k < j \<longrightarrow> ?c k = Inr True"
          by blast
        have "j = i"
        proof (rule ccontr)
          assume "j \<noteq> i"
          with j(1) have "i \<le> i \<and> i < j" by simp
          with j(4) have "?c i = Inr True" by blast
          with no show False by simp
        qed
        with j(3) show "?c i = r" by simp
      next
        assume "?c i = r"
        with True show "?stop i" by (intro exI [of _ i]) auto
      qed
      with now show ?thesis by simp
    qed
  qed
qed

section \<open>Ledgers reached by requests: bitcoin.py\<close>

lemma sealed_block_create_block: "sealed_block (create_block lib self now n h)"
  by (simp add: sealed_block_def create_block_def)

lemma bitcoin_hash_sealed:
  assumes "sealed_block b"
  shows "\<exists>h. bitcoin_hash lib self b = Inr h \<and> (\<forall>self'. bitcoin_hash lib self' b = Inr h)"
proof -
  from assms obtain ts ph th n where "b ''timestamp'' = Some (PStr ts)"
      "b ''previous_hash'' = Some (PStr ph)" "b ''transactions_hash'' = Some (PStr th)"
      "b ''nonce'' = Some (PInt n)"
    unfolding sealed_block_def by blast
  then show ?thesis
    by (simp add: bitcoin_hash_def getitem_def py_str_def)
qed

lemma bitcoin_hash_sealed_self:
  "sealed_block b \<Longrightarrow> bitcoin_hash lib self' b = bitcoin_hash lib self b"
  using bitcoin_hash_sealed [of b lib self] by auto

lemma bitcoin_linked_init: "bitcoin_linked lib (bitcoin_init lib now)"
  by (simp add: bitcoin_linked_def bitcoin_init_def Let_def sealed_block_create_block)

lemma bitcoin_linked_new_transaction:
  assumes "bitcoin_linked lib self"
  shows "bitcoin_linked lib (new_transaction self tr_str)"
proof -
  have chn: "chain_list (new_transaction self tr_str) = chain_list self"
    by (simp add: new_transaction_def)
  have "bitcoin_hash lib (new_transaction self tr_str) (chain_list self ! (i - 1))
          = bitcoin_hash lib self (chain_list self ! (i - 1))"
    if "0 < i \<and> i < length (chain_list self)" for i
  proof (rule bitcoin_hash_sealed_self)
    from that have "i - 1 < length (chain_list self)" by auto
    then have "chain_list self ! (i - 1) \<in> set (chain_list self)" by simp
    with assms show "sealed_block (chain_list self ! (i - 1))"
      by (simp add: bitcoin_linked_def)
  qed
  with assms show ?thesis
    unfolding bitcoin_linked_def chn by simp
qed

lemma bitcoin_linked_append:
  assumes linked: "bitcoin_linked lib self"
    and h: "bitcoin_hash lib self (last (chain_list self)) = Inr h"
  shows "bitcoin_linked lib (self\<lparr>chain_list := chain_list self @ [create_block lib self now n h]\<rparr>)"
    (is "bitcoin_linked lib ?self'")
proof -
  let ?b = "create_block lib self now n h"
  let ?chn = "chain_list self"
  from linked have ne: "?chn \<noteq> []" and sealed: "\<forall>b \<in> set ?chn. sealed_block b"
    and links: "\<forall>i. 0 < i \<and> i < length ?chn \<longrightarrow>
           (\<exists>h. bitcoin_hash lib self (?chn ! (i - 1)) = Inr h
              \<and> (?chn ! i) ''previous_hash'' = Some (PStr h))"
    by (simp_all add: bitcoin_linked_def)
  have chn': "chain_list ?self' = ?chn @ [?b]" by simp
  have all_sealed: "\<forall>b \<in> set (?chn @ [?b]). sealed_block b"
    using sealed by (simp add: sealed_block_create_block)
  have "\<exists>h'. bitcoin_hash lib ?self' ((?chn @ [?b]) ! (i - 1)) = Inr h'
           \<and> ((?chn @ [?b]) ! i) ''previous_hash'' = Some (PStr h')"
    if i: "0 < i \<and> i < length (?chn @ [?b])" for i
  proof -
    from i have less: "i - 1 < length ?chn" by auto
    then have prev_in: "(?chn @ [?b]) ! (i - 1) = ?chn ! (i - 1)"
      by (simp add: nth_append)
    note less
    then have "sealed_block (?chn ! (i - 1))" using sealed by simp
    then have hash': "bitcoin_hash lib ?self' (?chn ! (i - 1)) = bitcoin_hash lib self (?chn ! (i - 1))"
      by (rule bitcoin_hash_sealed_self)
    show ?thesis
    proof (cases "i < length ?chn")
      case True
      with i links have "\<exists>h. bitcoin_hash lib self (?chn ! (i - 1)) = Inr h
              \<and> (?chn ! i) ''previous_hash'' = Some (PStr h)"
        by simp
      with True show ?thesis
        unfolding prev_in hash' by (simp add: nth_append)
    next
      case False
      with i have eq: "i = length ?chn" by simp
      then have "?chn ! (i - 1) = last ?chn" using ne by (simp add: last_conv_nth)
      moreover have "((?chn @ [?b]) ! i) ''previous_hash'' = Some (PStr h)"
        unfolding eq by (simp add: create_block_def)
      ultimately show ?thesis
        unfolding prev_in hash' using h by simp
    qed
  qed
  then show ?thesis
    unfolding bitcoin_linked_def chn' using all_sealed by simp
qed

lemma bitcoin_proof_of_work_result:
  assumes linked: "bitcoin_linked lib self"
    and mined: "bitcoin_proof_of_work lib self now = Some r"
  shows "\<exists>n h. 1 \<le> n \<and> bitcoin_hash lib self (last (chain_list self)) = Inr h
           \<and> r = Inr (create_block lib self now n h,
                      self\<lparr>chain_list := chain_list self @ [create_block lib self now n h]\<rparr>)"
proof -
  from linked have ne: "chain_list self \<noteq> []" and "sealed_block (last (chain_list self))"
    by (simp_all add: bitcoin_linked_def)
  then obtain h where h: "bitcoin_hash lib self (last (chain_list self)) = Inr h"
    using bitcoin_hash_sealed by blast
  have p: "get_previous_block (chain_list self) = Inr (last (chain_list self))"
    using ne by (simp add: get_previous_block_def)
  from mined [unfolded bitcoin_proof_of_work_least [OF p h]] h show ?thesis by blast
qed

lemma bitcoin_linked_proof_of_work:
  assumes "bitcoin_linked lib self" and "bitcoin_proof_of_work lib self now = Some (Inr (b, self'))"
  shows "bitcoin_linked lib self'"
proof -
  from bitcoin_proof_of_work_result [OF assms] obtain n h
    where "bitcoin_hash lib self (last (chain_list self)) = Inr h"
      and "self' = self\<lparr>chain_list := chain_list self @ [create_block lib self now n h]\<rparr>"
    by auto
  with assms(1) show ?thesis by (simp add: bitcoin_linked_append)
qed

lemma bitcoin_proof_of_work_no_error:
  assumes "bitcoin_linked lib self"
  shows "bitcoin_proof_of_work lib self now \<noteq> Some (Inl e)"
  using bitcoin_proof_of_work_result [OF assms, of now "Inl e"] by auto

lemma bitcoin_linked_requests:
  "bitcoin_linked lib self \<Longrightarrow> bitcoin_requests lib self rs = Some (Inr self') \<Longrightarrow>
   bitcoin_linked lib self'"
proof (induction rs arbitrary: self)
  case Nil
  then show ?case by simp
next
  case (Cons r rs)
  show ?case
  proof (cases r)
    case (MineBlock now)
    with Cons.prems(2) obtain b self1
      where step: "bitcoin_proof_of_work lib self now = Some (Inr (b, self1))"
        and rest: "bitcoin_requests lib self1 rs = Some (Inr self')"
      by (auto split: option.splits sum.splits)
    from Cons.IH [OF bitcoin_linked_proof_of_work [OF Cons.prems(1) step] rest]
    show ?thesis .
  next
    case (NewTransaction tr_str)
    with Cons.prems(2)
    have rest: "bitcoin_requests lib (new_transaction self tr_str) rs = Some (Inr self')"
      by simp
    from Cons.IH [OF bitcoin_linked_new_transaction [OF Cons.prems(1)] rest]
    show ?thesis .
  qed
qed


section \<open>What one pass of the loop body decides\<close>

lemma check_block_True_iff:
  "check_block hsh lib previous_block b = Inr True \<longleftrightarrow>
     (\<exists>h c p. hsh previous_block = Inr h \<and> b ''previous_hash'' = Some (PStr h)
        \<and> previous_block ''proof'' = Some (PInt p) \<and> b ''proof'' = Some (PInt c)
        \<and> proof_ok lib p c)"
  by (auto simp: check_block_def getitem_def proof_ok_def Let_def
        split: option.splits sum.splits pyval.splits)

lemma check_block_False_iff:
  "check_block hsh lib previous_block b = Inr False \<longleftrightarrow>
     (\<exists>ph h. b ''previous_hash'' = Some ph \<and> hsh previous_block = Inr h
        \<and> (ph \<noteq> PStr h
            \<or> (\<exists>c p. previous_block ''proof'' = Some (PInt p) \<and> b ''proof'' = Some (PInt c)
                  \<and> \<not> proof_ok lib p c)))"
  by (auto simp: check_block_def getitem_def proof_ok_def Let_def
        split: option.splits sum.splits pyval.splits)

lemma check_block_mismatch:
  "hsh previous_block = Inr h \<Longrightarrow> b ''previous_hash'' = Some ph \<Longrightarrow> ph \<noteq> PStr h \<Longrightarrow>
   check_block hsh lib previous_block b = Inr False"
  by (simp add: check_block_def getitem_def)

lemma check_block_no_proof:
  "hsh previous_block = Inr h \<Longrightarrow> b ''previous_hash'' = Some (PStr h) \<Longrightarrow>
   previous_block ''proof'' = None \<Longrightarrow>
   check_block hsh lib previous_block b = Inl (KeyError ''proof'')"
  by (simp add: check_block_def getitem_def)

lemma is_chain_valid_True:
  "is_chain_valid hsh lib chn = Inr True \<longleftrightarrow>
     chn \<noteq> [] \<and> (\<forall>i. 0 < i \<and> i < length chn \<longrightarrow>
        check_block hsh lib (chn ! (i - 1)) (chn ! i) = Inr True)"
proof (cases chn)
  case Nil
  then show ?thesis by (simp add: is_chain_valid_def)
next
  case (Cons g rest)
  have "is_chain_valid_loop hsh lib chn (chn ! (1 - 1)) 1 = Inr True \<longleftrightarrow>
          (\<forall>j. 1 \<le> j \<and> j < length chn \<longrightarrow>
             check_block hsh lib (chn ! (j - 1)) (chn ! j) = Inr True)"
    by (rule is_chain_valid_loop_True) simp_all
  moreover have "1 \<le> j \<longleftrightarrow> 0 < j" for j :: nat by auto
  ultimately show ?thesis
    using Cons by (simp add: is_chain_valid_def)
qed

lemma is_chain_valid_stop:
  assumes "r \<noteq> Inr True" and "r \<noteq> Inl IndexError \<or> chn \<noteq> []"
  shows "is_chain_valid hsh lib chn = r \<longleftrightarrow>
     (\<exists>i. 0 < i \<and> i < length chn
        \<and> check_block hsh lib (chn ! (i - 1)) (chn ! i) = r
        \<and> (\<forall>k. 0 < k \<and> k < i \<longrightarrow>
              check_block hsh lib (chn ! (k - 1)) (chn ! k) = Inr True))"
proof (cases chn)
  case Nil
  with assms show ?thesis by (simp add: is_chain_valid_def)
next
  case (Cons g rest)
  have "is_chain_valid_loop hsh lib chn (chn ! (1 - 1)) 1 = r \<longleftrightarrow>
          (\<exists>j. 1 \<le> j \<and> j < length chn
             \<and> check_block hsh lib (chn ! (j - 1)) (chn ! j) = r
             \<and> (\<forall>k. 1 \<le> k \<and> k < j \<longrightarrow>
                   check_block hsh lib (chn ! (k - 1)) (chn ! k) = Inr True))"
    by (rule is_chain_valid_loop_stop) (simp_all add: assms)
  moreover have "1 \<le> j \<longleftrightarrow> 0 < j" for j :: nat by auto
  ultimately show ?thesis
    using Cons by (simp add: is_chain_valid_def)
qed

section \<open>Ledgers reached by requests: blockchain.py\<close>

lemma blockchain_linked_init: "blockchain_linked lib (blockchain_init now)"
  by (simp add: blockchain_linked_def blockchain_init_def create_blockchain_def Let_def)

lemma mine_block_result:
  assumes linked: "blockchain_linked lib chn" and mined: "mine_block lib chn now = Some r"
  shows "\<exists>p pf. last chn ''proof'' = Some (PInt p)
           \<and> blockchain_proof_of_work lib p = Some pf
           \<and> r = Inr (create_blockchain chn now pf
                        (hexdigest (sha256 lib (json_dumps lib (last chn)))))"
proof -
  from linked obtain p where ne: "chn \<noteq> []" and p: "last chn ''proof'' = Some (PInt p)"
    by (auto simp: blockchain_linked_def)
  with mined show ?thesis
    by (cases "blockchain_proof_of_work lib p")
       (simp_all add: mine_block_def get_previous_block_def getitem_def blockchain_hash_def)
qed

lemma blockchain_linked_append:
  assumes linked: "blockchain_linked lib chn"
    and p: "last chn ''proof'' = Some (PInt p)"
    and pf: "blockchain_proof_of_work lib p = Some pf"
  shows "blockchain_linked lib
           (snd (create_blockchain chn now pf (hexdigest (sha256 lib (json_dumps lib (last chn))))))"
proof -
  let ?h = "hexdigest (sha256 lib (json_dumps lib (last chn)))"
  let ?b = "fst (create_blockchain chn now pf ?h)"
  let ?c = "\<lambda>chn i. check_block (blockchain_hash lib) lib (chn ! (i - 1)) (chn ! i)"
  from linked have ne: "chn \<noteq> []"
    and checks: "\<forall>i. 0 < i \<and> i < length chn \<longrightarrow> ?c chn i = Inr True"
    by (simp_all add: blockchain_linked_def)
  have chn': "snd (create_blockchain chn now pf ?h) = chn @ [?b]"
    by (simp add: create_blockchain_def Let_def)
  have b: "?b ''previous_hash'' = Some (PStr ?h)" "?b ''proof'' = Some (PInt pf)"
    by (simp_all add: create_blockchain_def Let_def)
  from pf have ok: "proof_ok lib p pf"
    by (simp add: blockchain_proof_of_work_least)
  have new: "check_block (blockchain_hash lib) lib (last chn) ?b = Inr True"
    unfolding check_block_True_iff using b p ok by (simp add: blockchain_hash_def)
  have "?c (chn @ [?b]) i = Inr True" if i: "0 < i \<and> i < length (chn @ [?b])" for i
  proof (cases "i < length chn")
    case True
    with i have "i - 1 < length chn" by auto
    with True have "?c (chn @ [?b]) i = ?c chn i" by (simp add: nth_append)
    with checks i True show ?thesis by simp
  next
    case False
    with i have eq: "i = length chn" by simp
    then have "(chn @ [?b]) ! (i - 1) = last chn"
      using ne by (simp add: nth_append last_conv_nth)
    moreover have "(chn @ [?b]) ! i = ?b" unfolding eq by simp
    ultimately show ?thesis using new by simp
  qed
  then show ?thesis
    unfolding blockchain_linked_def chn' using b(2) by simp
qed

lemma blockchain_linked_mine_block:
  assumes "blockchain_linked lib chn" and "mine_block lib chn now = Some (Inr (b, chn'))"
  shows "blockchain_linked lib chn'"
proof -
  from mine_block_result [OF assms] obtain p pf
    where p: "last chn ''proof'' = Some (PInt p)"
      and pf: "blockchain_proof_of_work lib p = Some pf"
      and r: "(b, chn') = create_blockchain chn now pf
                (hexdigest (sha256 lib (json_dumps lib (last chn))))"
    by auto
  from r [symmetric] have "chn' = snd (create_blockchain chn now pf
                (hexdigest (sha256 lib (json_dumps lib (last chn)))))"
    by simp
  with blockchain_linked_append [OF assms(1) p pf] show ?thesis by simp
qed

lemma blockchain_linked_requests:
  "blockchain_linked lib chn \<Longrightarrow> blockchain_requests lib chn rs = Some (Inr chn') \<Longrightarrow>
   blockchain_linked lib chn'"
proof (induction rs arbitrary: chn)
  case Nil
  then show ?case by simp
next
  case (Cons now rs)
  from Cons.prems(2) obtain b chn1
    where step: "mine_block lib chn now = Some (Inr (b, chn1))"
      and rest: "blockchain_requests lib chn1 rs = Some (Inr chn')"
    by (auto split: option.splits sum.splits)
  from Cons.IH [OF blockchain_linked_mine_block [OF Cons.prems(1) step] rest]
  show ?case .
qed

lemma blockchain_validity_closure:
  assumes "blockchain_requests lib (blockchain_init now) rs = Some (Inr chn)"
  shows "blockchain_is_chain_valid lib chn = Inr True"
proof -
  from blockchain_linked_requests [OF blockchain_linked_init assms]
  have "blockchain_linked lib chn" .
  then show ?thesis
    by (simp add: blockchain_is_chain_valid_def is_chain_valid_True blockchain_linked_def)
qed

lemma bitcoin_validator_raises:
  assumes linked: "bitcoin_linked lib self" and two: "2 \<le> length (chain_list self)"
  shows "bitcoin_is_chain_valid lib self (chain_list self) = Inl (KeyError ''proof'')"
proof -
  let ?chn = "chain_list self"
  let ?c = "\<lambda>i. check_block (bitcoin_hash lib self) lib (?chn ! (i - 1)) (?chn ! i)"
  from two have one: "0 < (1 :: nat) \<and> 1 < length ?chn" by simp
  with linked obtain h where h: "bitcoin_hash lib self (?chn ! (1 - 1)) = Inr h"
      "(?chn ! 1) ''previous_hash'' = Some (PStr h)"
    unfolding bitcoin_linked_def by blast
  from linked two have "sealed_block (?chn ! (1 - 1))"
    by (simp add: bitcoin_linked_def)
  then have "(?chn ! (1 - 1)) ''proof'' = None"
    by (simp add: sealed_block_def)
  with h have first: "?c 1 = Inl (KeyError ''proof'')"
    by (rule check_block_no_proof)
  have "is_chain_valid (bitcoin_hash lib self) lib ?chn = Inl (KeyError ''proof'') \<longleftrightarrow>
     (\<exists>i. 0 < i \<and> i < length ?chn \<and> ?c i = Inl (KeyError ''proof'')
        \<and> (\<forall>k. 0 < k \<and> k < i \<longrightarrow> ?c k = Inr True))"
    by (rule is_chain_valid_stop) simp_all
  moreover have "\<exists>i. 0 < i \<and> i < length ?chn \<and> ?c i = Inl (KeyError ''proof'')
        \<and> (\<forall>k. 0 < k \<and> k < i \<longrightarrow> ?c k = Inr True)"
    using first two by (intro exI [of _ 1]) auto
  ultimately show ?thesis
    by (simp only: bitcoin_is_chain_valid_def)
qed

section \<open>The examples, evaluated\<close>

lemma replicate_numeral: "replicate (numeral k) x = x # replicate (pred_numeral k) x"
  by (simp add: numeral_eq_Suc)

lemma example_digest_cases:
  "k < 5 \<Longrightarrow> hexdigest (k * 2 ^ 253) =
     (''02468'' ! k) # ''000000000000000000000000000000000000000000000000000000000000000''"
proof -
  assume "k < 5"
  then consider "k = 0" | "k = 1" | "k = 2" | "k = 3" | "k = 4" by linarith
  then show ?thesis
    by cases
      (simp_all add: hexdigest_def format_064x_def hex_str.simps hex_chars_def replicate_numeral)
qed

lemma example_hexdigest:
  "hexdigest (sha256 example_lib s) =
     (''02468'' ! (sum_list (map of_char s) mod 5))
       # ''000000000000000000000000000000000000000000000000000000000000000''"
  using example_digest_cases [of "sum_list (map of_char s) mod 5"]
  by (simp add: example_lib_def example_sha256_def)

lemma example_digest_small:
  "int (sha256 example_lib s mod 2 ^ 256) < 65535 * 2 ^ 208 \<longleftrightarrow>
     sum_list (map of_char s) mod 5 = (0 :: nat)"
proof -
  let ?k = "sum_list (map of_char s) mod 5 :: nat"
  have "?k < 5" by simp
  then consider "?k = 0" | "?k = 1" | "?k = 2" | "?k = 3" | "?k = 4" by linarith
  then show ?thesis
    by cases (simp_all add: example_lib_def example_sha256_def)
qed

lemma example_proof_ok:
  "proof_ok example_lib p c \<longleftrightarrow> sum_list (map of_char (str_int (c ^ 2 - p ^ 2))) mod 5 = (0 :: nat)"
proof -
  let ?k = "sum_list (map of_char (str_int (c ^ 2 - p ^ 2))) mod 5 :: nat"
  have "?k < 5" by simp
  then consider "?k = 0" | "?k = 1" | "?k = 2" | "?k = 3" | "?k = 4" by linarith
  then show ?thesis
    by cases (simp_all add: proof_ok_def example_hexdigest)
qed

lemma example_str_list: "str_list example_lib = simple_str_list"
  by (simp add: example_lib_def)

lemma example_json_dumps: "json_dumps example_lib = simple_json_dumps"
  by (simp add: example_lib_def)

lemmas example_text = example_hexdigest example_str_list simple_str_list_def py_quote_def
  str_int_def str_nat.simps

lemma fresh_ledger_init: "bitcoin_init example_lib ''2021-05-05 10:00:00.000001'' = fresh_ledger"
  by (simp add: bitcoin_init_def Let_def create_block_def fresh_ledger_def genesis_example_def
        example_text)

lemma pending_ledger_new_transaction: "new_transaction fresh_ledger ''tx1'' = pending_ledger"
  by (simp add: new_transaction_def fresh_ledger_def pending_ledger_def)

lemma genesis_example_hash:
  "bitcoin_hash example_lib self genesis_example =
     Inr ''6000000000000000000000000000000000000000000000000000000000000000''"
  by (simp add: bitcoin_hash_def getitem_def py_str_def genesis_example_def example_text)

lemma sealed_example_hash:
  "bitcoin_hash example_lib self sealed_example =
     Inr ''0000000000000000000000000000000000000000000000000000000000000000''"
  by (simp add: bitcoin_hash_def getitem_def py_str_def sealed_example_def example_text)

lemma mined_example_create:
  "create_block example_lib fresh_ledger ''2021-05-05 10:00:07.000003'' 4
     ''6000000000000000000000000000000000000000000000000000000000000000'' = mined_example"
  by (simp add: create_block_def fresh_ledger_def mined_example_def example_text)

lemma sealed_example_create:
  "create_block example_lib pending_ledger ''2021-05-05 10:00:07.000003'' 3
     ''6000000000000000000000000000000000000000000000000000000000000000'' = sealed_example"
  by (simp add: create_block_def pending_ledger_def sealed_example_def example_text)

lemma resealed_example_create:
  "create_block example_lib sealed_ledger ''2021-05-05 10:00:09.000004'' 1
     ''0000000000000000000000000000000000000000000000000000000000000000'' = resealed_example"
  by (simp add: create_block_def sealed_ledger_def resealed_example_def example_text)

lemma example_nonce_ok:
  "nonce_ok example_lib self nbits_target (create_block example_lib self' now n h) \<longleftrightarrow>
     sum_list (map of_char
       (now @ h
          @ hexdigest (sha256 example_lib
              (str_list example_lib (heap self' (current_transactions self'))))
          @ str_int n)) mod 5 = (0 :: nat)"
  unfolding nonce_ok_create_block nbits_target_def by (rule example_digest_small)

lemma fresh_search:
  "\<not> nonce_ok example_lib fresh_ledger nbits_target
       (create_block example_lib fresh_ledger ''2021-05-05 10:00:07.000003'' 1
          ''6000000000000000000000000000000000000000000000000000000000000000'')"
  "\<not> nonce_ok example_lib fresh_ledger nbits_target
       (create_block example_lib fresh_ledger ''2021-05-05 10:00:07.000003'' 2
          ''6000000000000000000000000000000000000000000000000000000000000000'')"
  "\<not> nonce_ok example_lib fresh_ledger nbits_target
       (create_block example_lib fresh_ledger ''2021-05-05 10:00:07.000003'' 3
          ''6000000000000000000000000000000000000000000000000000000000000000'')"
  "nonce_ok example_lib fresh_ledger nbits_target
       (create_block example_lib fresh_ledger ''2021-05-05 10:00:07.000003'' 4
          ''6000000000000000000000000000000000000000000000000000000000000000'')"
  by (simp_all add: example_nonce_ok fresh_ledger_def example_text)

lemma pending_search:
  "\<not> nonce_ok example_lib pending_ledger nbits_target
       (create_block example_lib pending_ledger ''2021-05-05 10:00:07.000003'' 1
          ''6000000000000000000000000000000000000000000000000000000000000000'')"
  "\<not> nonce_ok example_lib pending_ledger nbits_target
       (create_block example_lib pending_ledger ''2021-05-05 10:00:07.000003'' 2
          ''6000000000000000000000000000000000000000000000000000000000000000'')"
  "nonce_ok example_lib pending_ledger nbits_target
       (create_block example_lib pending_ledger ''2021-05-05 10:00:07.000003'' 3
          ''6000000000000000000000000000000000000000000000000000000000000000'')"
  by (simp_all add: example_nonce_ok pending_ledger_def example_text)

lemma sealed_search:
  "nonce_ok example_lib sealed_ledger nbits_target
       (create_block example_lib sealed_ledger ''2021-05-05 10:00:09.000004'' 1
          ''0000000000000000000000000000000000000000000000000000000000000000'')"
  by (simp_all add: example_nonce_ok sealed_ledger_def example_text)

lemma below_4: "1 \<le> m \<and> m < 4 \<Longrightarrow> m = 1 \<or> m = 2 \<or> m = 3" for m :: int
  by arith

lemma below_3: "1 \<le> m \<and> m < 3 \<Longrightarrow> m = 1 \<or> m = 2" for m :: int
  by arith

lemma bitcoin_proof_of_work_found:
  assumes "get_previous_block (chain_list self) = Inr p" and "bitcoin_hash lib self p = Inr h"
    and "1 \<le> n" and "create_block lib self now n h = b"
    and "self\<lparr>chain_list := chain_list self @ [b]\<rparr> = self'"
    and "nonce_ok lib self nbits_target b"
    and "\<forall>m. 1 \<le> m \<and> m < n \<longrightarrow>
           \<not> nonce_ok lib self nbits_target (create_block lib self now m h)"
  shows "bitcoin_proof_of_work lib self now = Some (Inr (b, self'))"
  unfolding bitcoin_proof_of_work_least [OF assms(1,2)]
  using assms(3-7) by (intro exI [of _ n]) simp

lemma mined_ledger_proof_of_work:
  "bitcoin_proof_of_work example_lib fresh_ledger ''2021-05-05 10:00:07.000003'' =
     Some (Inr (mined_example, mined_ledger))"
proof (rule bitcoin_proof_of_work_found [OF _ genesis_example_hash _ mined_example_create])
  show "get_previous_block (chain_list fresh_ledger) = Inr genesis_example"
    by (simp add: get_previous_block_def fresh_ledger_def)
  show "fresh_ledger\<lparr>chain_list := chain_list fresh_ledger @ [mined_example]\<rparr> = mined_ledger"
    by (simp add: fresh_ledger_def mined_ledger_def)
  show "nonce_ok example_lib fresh_ledger nbits_target mined_example"
    using fresh_search(4) by (simp only: mined_example_create)
  show "\<forall>m. 1 \<le> m \<and> m < 4 \<longrightarrow>
      \<not> nonce_ok example_lib fresh_ledger nbits_target
          (create_block example_lib fresh_ledger ''2021-05-05 10:00:07.000003'' m
             ''6000000000000000000000000000000000000000000000000000000000000000'')"
    using fresh_search(1-3) below_4 by blast
qed simp

lemma sealed_ledger_proof_of_work:
  "bitcoin_proof_of_work example_lib pending_ledger ''2021-05-05 10:00:07.000003'' =
     Some (Inr (sealed_example, sealed_ledger))"
proof (rule bitcoin_proof_of_work_found [OF _ genesis_example_hash _ sealed_example_create])
  show "get_previous_block (chain_list pending_ledger) = Inr genesis_example"
    by (simp add: get_previous_block_def pending_ledger_def)
  show "pending_ledger\<lparr>chain_list := chain_list pending_ledger @ [sealed_example]\<rparr> = sealed_ledger"
    by (simp add: pending_ledger_def sealed_ledger_def)
  show "nonce_ok example_lib pending_ledger nbits_target sealed_example"
    using pending_search(3) by (simp only: sealed_example_create)
  show "\<forall>m. 1 \<le> m \<and> m < 3 \<longrightarrow>
      \<not> nonce_ok example_lib pending_ledger nbits_target
          (create_block example_lib pending_ledger ''2021-05-05 10:00:07.000003'' m
             ''6000000000000000000000000000000000000000000000000000000000000000'')"
    using pending_search(1,2) below_3 by blast
qed simp

lemma resealed_ledger_proof_of_work:
  "bitcoin_proof_of_work example_lib sealed_ledger ''2021-05-05 10:00:09.000004'' =
     Some (Inr (resealed_example, resealed_ledger))"
proof (rule bitcoin_proof_of_work_found [OF _ sealed_example_hash _ resealed_example_create])
  show "get_previous_block (chain_list sealed_ledger) = Inr sealed_example"
    by (simp add: get_previous_block_def sealed_ledger_def)
  show "sealed_ledger\<lparr>chain_list := chain_list sealed_ledger @ [resealed_example]\<rparr>
          = resealed_ledger"
    by (simp add: sealed_ledger_def resealed_ledger_def)
  show "nonce_ok example_lib sealed_ledger nbits_target resealed_example"
    using sealed_search by (simp only: resealed_example_create)
  show "\<forall>m. 1 \<le> m \<and> m < 1 \<longrightarrow>
      \<not> nonce_ok example_lib sealed_ledger nbits_target
          (create_block example_lib sealed_ledger ''2021-05-05 10:00:09.000004'' m
             ''0000000000000000000000000000000000000000000000000000000000000000'')"
    by auto
qed simp

lemma mined_ledger_requests:
  "bitcoin_requests example_lib (bitcoin_init example_lib ''2021-05-05 10:00:00.000001'')
     [MineBlock ''2021-05-05 10:00:07.000003''] = Some (Inr mined_ledger)"
  by (simp add: fresh_ledger_init mined_ledger_proof_of_work)

lemma resealed_ledger_requests:
  "bitcoin_requests example_lib (bitcoin_init example_lib ''2021-05-05 10:00:00.000001'')
     [NewTransaction ''tx1'', MineBlock ''2021-05-05 10:00:07.000003'',
      MineBlock ''2021-05-05 10:00:09.000004''] = Some (Inr resealed_ledger)"
  by (simp add: fresh_ledger_init pending_ledger_new_transaction sealed_ledger_proof_of_work
        resealed_ledger_proof_of_work)

section \<open>The blockchain.py example, evaluated\<close>

lemma genesis_example2_init: "blockchain_init ''2021-05-05 10:00:00.000001'' = [genesis_example2]"
  by (simp add: blockchain_init_def create_blockchain_def Let_def genesis_example2_def)

lemmas example_json = example_json_dumps simple_json_dumps_def json_quote_def json_value_def
  example_hexdigest str_int_def str_nat.simps

lemma genesis_example2_hash:
  "blockchain_hash example_lib genesis_example2 =
     Inr ''0000000000000000000000000000000000000000000000000000000000000000''"
  by (simp add: blockchain_hash_def genesis_example2_def example_json)

lemma mined_example2_hash:
  "blockchain_hash example_lib mined_example2 =
     Inr ''2000000000000000000000000000000000000000000000000000000000000000''"
  by (simp add: blockchain_hash_def mined_example2_def example_json)

lemma example_proof_search:
  "\<not> proof_ok example_lib 1 1" "\<not> proof_ok example_lib 1 2" "\<not> proof_ok example_lib 1 3"
  "\<not> proof_ok example_lib 1 4" "\<not> proof_ok example_lib 1 5" "\<not> proof_ok example_lib 1 6"
  "\<not> proof_ok example_lib 1 7" "proof_ok example_lib 1 8"
  by (simp_all add: example_proof_ok str_int_def str_nat.simps)

lemma below_8:
  "1 \<le> m \<and> m < 8 \<Longrightarrow> m = 1 \<or> m = 2 \<or> m = 3 \<or> m = 4 \<or> m = 5 \<or> m = 6 \<or> m = 7"
  for m :: int
  by arith

lemma example_proof_below: "\<forall>m. 1 \<le> m \<and> m < 8 \<longrightarrow> \<not> proof_ok example_lib 1 m"
  using example_proof_search(1-7) below_8 by blast

lemma example_proof_of_work: "blockchain_proof_of_work example_lib 1 = Some 8"
  unfolding blockchain_proof_of_work_least
  using example_proof_search(8) example_proof_below by simp

lemma mined_example2_mine_block:
  "mine_block example_lib [genesis_example2] ''2021-05-05 10:00:07.000003'' =
     Some (Inr (mined_example2, [genesis_example2, mined_example2]))"
proof -
  have "getitem genesis_example2 ''proof'' = Inr (PInt 1)"
    by (simp add: getitem_def genesis_example2_def)
  moreover have "create_blockchain [genesis_example2] ''2021-05-05 10:00:07.000003'' 8
      ''0000000000000000000000000000000000000000000000000000000000000000''
      = (mined_example2, [genesis_example2, mined_example2])"
    by (simp add: create_blockchain_def Let_def mined_example2_def)
  ultimately show ?thesis
    by (simp add: mine_block_def get_previous_block_def example_proof_of_work
          genesis_example2_hash)
qed

lemma mined_example2_requests:
  "blockchain_requests example_lib (blockchain_init ''2021-05-05 10:00:00.000001'')
     [''2021-05-05 10:00:07.000003''] = Some (Inr [genesis_example2, mined_example2])"
  by (simp add: genesis_example2_init mined_example2_mine_block)

section \<open>The claims\<close>


text \<open>
  C6. In every chain the requests produce from a fresh ledger, each block after the first
  stores as \<open>previous_hash\<close> the hash of the block before it, as the ledger's own hash
  function computes it. This holds in both variants, and in bitcoin.py also when
  transactions are submitted between the mining requests.
\<close>

theorem linkage:
  "(bitcoin_requests lib (bitcoin_init lib now) rs = Some (Inr self)
      \<and> 0 < i \<and> i < length (chain_list self) \<longrightarrow>
      (\<exists>h. bitcoin_hash lib self (chain_list self ! (i - 1)) = Inr h
         \<and> (chain_list self ! i) ''previous_hash'' = Some (PStr h)))
   \<and> (blockchain_requests lib (blockchain_init now') ts = Some (Inr chn)
      \<and> 0 < j \<and> j < length chn \<longrightarrow>
      (\<exists>h. blockchain_hash lib (chn ! (j - 1)) = Inr h
         \<and> (chn ! j) ''previous_hash'' = Some (PStr h)))"
proof (intro conjI impI)
  assume a: "bitcoin_requests lib (bitcoin_init lib now) rs = Some (Inr self)
      \<and> 0 < i \<and> i < length (chain_list self)"
  then have "bitcoin_linked lib self"
    using bitcoin_linked_requests [OF bitcoin_linked_init] by blast
  with a show "\<exists>h. bitcoin_hash lib self (chain_list self ! (i - 1)) = Inr h
         \<and> (chain_list self ! i) ''previous_hash'' = Some (PStr h)"
    by (simp add: bitcoin_linked_def)
next
  assume a: "blockchain_requests lib (blockchain_init now') ts = Some (Inr chn)
      \<and> 0 < j \<and> j < length chn"
  then have "blockchain_linked lib chn"
    using blockchain_linked_requests [OF blockchain_linked_init] by blast
  with a have "check_block (blockchain_hash lib) lib (chn ! (j - 1)) (chn ! j) = Inr True"
    by (simp add: blockchain_linked_def)
  then show "\<exists>h. blockchain_hash lib (chn ! (j - 1)) = Inr h
         \<and> (chn ! j) ''previous_hash'' = Some (PStr h)"
    unfolding check_block_True_iff by blast
qed


theorem linkage_witness:
  "bitcoin_requests example_lib (bitcoin_init example_lib ''2021-05-05 10:00:00.000001'')
     [MineBlock ''2021-05-05 10:00:07.000003''] = Some (Inr mined_ledger)
   \<and> (\<exists>h. bitcoin_hash example_lib mined_ledger (chain_list mined_ledger ! (1 - 1)) = Inr h
         \<and> (chain_list mined_ledger ! 1) ''previous_hash'' = Some (PStr h))
   \<and> blockchain_requests example_lib (blockchain_init ''2021-05-05 10:00:00.000001'')
        [''2021-05-05 10:00:07.000003''] = Some (Inr [genesis_example2, mined_example2])
   \<and> (\<exists>h. blockchain_hash example_lib ([genesis_example2, mined_example2] ! (1 - 1)) = Inr h
         \<and> ([genesis_example2, mined_example2] ! 1) ''previous_hash'' = Some (PStr h))"
  using linkage [of example_lib "''2021-05-05 10:00:00.000001''"
      "[MineBlock ''2021-05-05 10:00:07.000003'']" mined_ledger 1
      "''2021-05-05 10:00:00.000001''" "[''2021-05-05 10:00:07.000003'']"
      "[genesis_example2, mined_example2]" 1]
    mined_ledger_requests mined_example2_requests
  by (simp add: mined_ledger_def)





section \<open>Tampering with the first link, and the role of the first block\<close>

lemma tamper_first_link:
  assumes two: "2 \<le> length chn" and h0: "hsh (chn ! 0) = Inr h0" and other: "h' \<noteq> h0"
  shows "check_block hsh lib (chn ! 0) ((chn ! 1)(''previous_hash'' \<mapsto> PStr h')) = Inr False"
    and "is_chain_valid hsh lib (chn[1 := (chn ! 1)(''previous_hash'' \<mapsto> PStr h')]) = Inr False"
proof -
  let ?b = "(chn ! 1)(''previous_hash'' \<mapsto> PStr h')"
  let ?chn = "chn[1 := ?b]"
  let ?c = "\<lambda>i. check_block hsh lib (?chn ! (i - 1)) (?chn ! i)"
  show first: "check_block hsh lib (chn ! 0) ?b = Inr False"
    using h0 other by (intro check_block_mismatch [where ph = "PStr h'"]) simp_all
  from two have "?chn ! (1 - 1) = chn ! 0" and "?chn ! 1 = ?b" by simp_all
  with first have "?c 1 = Inr False" by simp
  with two have "\<exists>i. 0 < i \<and> i < length ?chn \<and> ?c i = Inr False
      \<and> (\<forall>k. 0 < k \<and> k < i \<longrightarrow> ?c k = Inr True)"
    by (intro exI [of _ 1]) auto
  moreover have "is_chain_valid hsh lib ?chn = Inr False \<longleftrightarrow>
     (\<exists>i. 0 < i \<and> i < length ?chn \<and> ?c i = Inr False
        \<and> (\<forall>k. 0 < k \<and> k < i \<longrightarrow> ?c k = Inr True))"
    by (rule is_chain_valid_stop) simp_all
  ultimately show "is_chain_valid hsh lib ?chn = Inr False" by simp
qed

lemma valid_first_link:
  assumes "2 \<le> length chn" and "is_chain_valid hsh lib chn = Inr True"
  shows "\<exists>h. hsh (chn ! 0) = Inr h \<and> (chn ! 1) ''previous_hash'' = Some (PStr h)"
proof -
  from assms have "check_block hsh lib (chn ! (1 - 1)) (chn ! 1) = Inr True"
    unfolding is_chain_valid_True by auto
  then show ?thesis
    unfolding check_block_True_iff by auto
qed

lemma check_block_previous_cong:
  assumes "hsh g = hsh g'" and "g ''proof'' = g' ''proof''"
  shows "check_block hsh lib g b = check_block hsh lib g' b"
  unfolding check_block_def getitem_def assms by (rule refl)

lemma is_chain_valid_checks_cong:
  assumes len: "length chn = length chn'" and ne: "chn \<noteq> []"
    and same: "\<forall>i. 0 < i \<and> i < length chn \<longrightarrow>
      check_block hsh lib (chn ! (i - 1)) (chn ! i) = check_block hsh lib (chn' ! (i - 1)) (chn' ! i)"
  shows "is_chain_valid hsh lib chn = is_chain_valid hsh lib chn'"
proof -
  let ?c = "\<lambda>i. check_block hsh lib (chn ! (i - 1)) (chn ! i)"
  let ?c' = "\<lambda>i. check_block hsh lib (chn' ! (i - 1)) (chn' ! i)"
  define r where "r = is_chain_valid hsh lib chn'"
  from len ne have ne': "chn' \<noteq> []" by auto
  show ?thesis
  proof (cases "r = Inr True")
    case True
    then have "\<forall>i. 0 < i \<and> i < length chn' \<longrightarrow> ?c' i = Inr True"
      unfolding r_def is_chain_valid_True by simp
    with same len have "\<forall>i. 0 < i \<and> i < length chn \<longrightarrow> ?c i = Inr True" by simp
    with ne have "is_chain_valid hsh lib chn = Inr True"
      unfolding is_chain_valid_True by simp
    with True show ?thesis by (simp add: r_def)
  next
    case False
    have "is_chain_valid hsh lib chn' = r \<longleftrightarrow>
        (\<exists>i. 0 < i \<and> i < length chn' \<and> ?c' i = r \<and> (\<forall>k. 0 < k \<and> k < i \<longrightarrow> ?c' k = Inr True))"
      using False ne' by (intro is_chain_valid_stop) simp_all
    then obtain i where i: "0 < i" "i < length chn'" "?c' i = r"
        "\<forall>k. 0 < k \<and> k < i \<longrightarrow> ?c' k = Inr True"
      unfolding r_def by blast
    have "?c k = Inr True" if "0 < k \<and> k < i" for k
    proof -
      from that i(2) len have "0 < k \<and> k < length chn" by simp
      with same have "?c k = ?c' k" by blast
      with i(4) that show ?thesis by simp
    qed
    moreover from same i(1,2) len have "?c i = ?c' i" by simp
    ultimately have "\<exists>i. 0 < i \<and> i < length chn \<and> ?c i = r
        \<and> (\<forall>k. 0 < k \<and> k < i \<longrightarrow> ?c k = Inr True)"
      using i(1,2,3) len by (intro exI [of _ i]) simp
    moreover have "is_chain_valid hsh lib chn = r \<longleftrightarrow>
        (\<exists>i. 0 < i \<and> i < length chn \<and> ?c i = r \<and> (\<forall>k. 0 < k \<and> k < i \<longrightarrow> ?c k = Inr True))"
      using False ne by (intro is_chain_valid_stop) simp_all
    ultimately show ?thesis by (simp add: r_def)
  qed
qed

lemma is_chain_valid_first_cong:
  assumes "hsh g = hsh g'" and "g ''proof'' = g' ''proof''"
  shows "is_chain_valid hsh lib (g # bs) = is_chain_valid hsh lib (g' # bs)"
proof (rule is_chain_valid_checks_cong)
  show "\<forall>i. 0 < i \<and> i < length (g # bs) \<longrightarrow>
      check_block hsh lib ((g # bs) ! (i - 1)) ((g # bs) ! i)
        = check_block hsh lib ((g' # bs) ! (i - 1)) ((g' # bs) ! i)"
  proof (intro allI impI)
    fix i assume i: "0 < i \<and> i < length (g # bs)"
    show "check_block hsh lib ((g # bs) ! (i - 1)) ((g # bs) ! i)
        = check_block hsh lib ((g' # bs) ! (i - 1)) ((g' # bs) ! i)"
    proof (cases "i = 1")
      case True
      then show ?thesis
        using check_block_previous_cong [OF assms] by simp
    next
      case False
      with i obtain j where "i = Suc (Suc j)"
        by (metis Suc_pred less_Suc0 not_gr_zero One_nat_def)
      then show ?thesis by simp
    qed
  qed
qed simp_all

lemma is_chain_valid_singleton: "is_chain_valid hsh lib [b] = Inr True"
  by (simp add: is_chain_valid_True)


text \<open>
  C9. Take a chain of at least two blocks that the validator accepts (or, in bitcoin.py, a
  chain the requests produced) and replace the \<open>previous_hash\<close> of the block at index 1 by
  any other string. The validator then returns \<open>False\<close>, and it does so in the first pass of
  its loop, at index 1: the comparison with the hash of block 0 fails there.
\<close>

theorem tamper_detection:
  "(2 \<le> length chn \<and> blockchain_is_chain_valid lib chn = Inr True
      \<and> (chn ! 1) ''previous_hash'' \<noteq> Some (PStr h')
      \<longrightarrow> check_block (blockchain_hash lib) lib (chn ! 0)
            ((chn ! 1)(''previous_hash'' \<mapsto> PStr h')) = Inr False
        \<and> blockchain_is_chain_valid lib (chn[1 := (chn ! 1)(''previous_hash'' \<mapsto> PStr h')])
            = Inr False)
   \<and> (2 \<le> length chn
      \<and> (bitcoin_is_chain_valid lib self chn = Inr True
          \<or> bitcoin_requests lib (bitcoin_init lib now) rs = Some (Inr self)
             \<and> chn = chain_list self)
      \<and> (chn ! 1) ''previous_hash'' \<noteq> Some (PStr h')
      \<longrightarrow> check_block (bitcoin_hash lib self) lib (chn ! 0)
            ((chn ! 1)(''previous_hash'' \<mapsto> PStr h')) = Inr False
        \<and> bitcoin_is_chain_valid lib self (chn[1 := (chn ! 1)(''previous_hash'' \<mapsto> PStr h')])
            = Inr False)"
proof (intro conjI impI)
  assume a: "2 \<le> length chn \<and> blockchain_is_chain_valid lib chn = Inr True
      \<and> (chn ! 1) ''previous_hash'' \<noteq> Some (PStr h')"
  then have two: "2 \<le> length chn"
    and valid: "is_chain_valid (blockchain_hash lib) lib chn = Inr True"
    and stored: "(chn ! 1) ''previous_hash'' \<noteq> Some (PStr h')"
    by (simp_all add: blockchain_is_chain_valid_def)
  from valid_first_link [OF two valid] obtain h
    where h: "blockchain_hash lib (chn ! 0) = Inr h"
      and link: "(chn ! 1) ''previous_hash'' = Some (PStr h)"
    by blast
  from stored link have other: "h' \<noteq> h" by auto
  show "check_block (blockchain_hash lib) lib (chn ! 0)
          ((chn ! 1)(''previous_hash'' \<mapsto> PStr h')) = Inr False"
    by (rule tamper_first_link(1) [where hsh = "blockchain_hash lib", OF two h other])
  show "blockchain_is_chain_valid lib (chn[1 := (chn ! 1)(''previous_hash'' \<mapsto> PStr h')])
          = Inr False"
    unfolding blockchain_is_chain_valid_def
    by (rule tamper_first_link(2) [where hsh = "blockchain_hash lib", OF two h other])
next
  assume a: "2 \<le> length chn
      \<and> (bitcoin_is_chain_valid lib self chn = Inr True
          \<or> bitcoin_requests lib (bitcoin_init lib now) rs = Some (Inr self)
             \<and> chn = chain_list self)
      \<and> (chn ! 1) ''previous_hash'' \<noteq> Some (PStr h')"
  then have two: "2 \<le> length chn"
    and stored: "(chn ! 1) ''previous_hash'' \<noteq> Some (PStr h')"
    by simp_all
  have "\<exists>h. bitcoin_hash lib self (chn ! 0) = Inr h \<and> (chn ! 1) ''previous_hash'' = Some (PStr h)"
  proof (cases "bitcoin_is_chain_valid lib self chn = Inr True")
    case True
    then have "is_chain_valid (bitcoin_hash lib self) lib chn = Inr True"
      by (simp only: bitcoin_is_chain_valid_def)
    from valid_first_link [OF two this] show ?thesis .
  next
    case False
    with a have run: "bitcoin_requests lib (bitcoin_init lib now) rs = Some (Inr self)"
      and chn: "chn = chain_list self"
      by simp_all
    from bitcoin_linked_requests [OF bitcoin_linked_init run]
    have "\<forall>i. 0 < i \<and> i < length chn \<longrightarrow>
           (\<exists>h. bitcoin_hash lib self (chn ! (i - 1)) = Inr h
              \<and> (chn ! i) ''previous_hash'' = Some (PStr h))"
      by (simp add: bitcoin_linked_def chn)
    moreover from two have "0 < (1 :: nat) \<and> 1 < length chn" by simp
    ultimately have "\<exists>h. bitcoin_hash lib self (chn ! (1 - 1)) = Inr h
              \<and> (chn ! 1) ''previous_hash'' = Some (PStr h)"
      by blast
    then show ?thesis by simp
  qed
  then obtain h where h: "bitcoin_hash lib self (chn ! 0) = Inr h"
    and link: "(chn ! 1) ''previous_hash'' = Some (PStr h)"
    by blast
  from stored link have other: "h' \<noteq> h" by auto
  show "check_block (bitcoin_hash lib self) lib (chn ! 0)
          ((chn ! 1)(''previous_hash'' \<mapsto> PStr h')) = Inr False"
    by (rule tamper_first_link(1) [where hsh = "bitcoin_hash lib self", OF two h other])
  show "bitcoin_is_chain_valid lib self (chn[1 := (chn ! 1)(''previous_hash'' \<mapsto> PStr h')])
          = Inr False"
    unfolding bitcoin_is_chain_valid_def
    by (rule tamper_first_link(2) [where hsh = "bitcoin_hash lib self", OF two h other])
qed

theorem tamper_detection_witness:
  "blockchain_is_chain_valid example_lib [genesis_example2, mined_example2] = Inr True
   \<and> blockchain_is_chain_valid example_lib
        ([genesis_example2, mined_example2]
           [1 := ([genesis_example2, mined_example2] ! 1)(''previous_hash'' \<mapsto> PStr ''ff'')])
        = Inr False
   \<and> bitcoin_is_chain_valid example_lib mined_ledger
        ([genesis_example, mined_example]
           [1 := ([genesis_example, mined_example] ! 1)(''previous_hash'' \<mapsto> PStr ''ff'')])
        = Inr False"
proof -
  have valid: "blockchain_is_chain_valid example_lib [genesis_example2, mined_example2] = Inr True"
    by (rule blockchain_validity_closure [OF mined_example2_requests])
  have stored: "([genesis_example2, mined_example2] ! 1) ''previous_hash'' \<noteq> Some (PStr ''ff'')"
    "([genesis_example, mined_example] ! 1) ''previous_hash'' \<noteq> Some (PStr ''ff'')"
    by (simp_all add: mined_example2_def mined_example_def)
  have chn: "[genesis_example, mined_example] = chain_list mined_ledger"
    by (simp add: mined_ledger_def)
  have two: "2 \<le> length [genesis_example2, mined_example2]"
    "2 \<le> length [genesis_example, mined_example]"
    by simp_all
  from tamper_detection [of "[genesis_example2, mined_example2]" example_lib "''ff''"]
    two(1) valid stored(1)
  have t1: "blockchain_is_chain_valid example_lib
        ([genesis_example2, mined_example2]
           [1 := ([genesis_example2, mined_example2] ! 1)(''previous_hash'' \<mapsto> PStr ''ff'')])
        = Inr False"
    by blast
  from tamper_detection [of "[genesis_example, mined_example]" example_lib "''ff''" mined_ledger
      "''2021-05-05 10:00:00.000001''" "[MineBlock ''2021-05-05 10:00:07.000003'']"]
    two(2) stored(2) chn mined_ledger_requests
  have t2: "bitcoin_is_chain_valid example_lib mined_ledger
        ([genesis_example, mined_example]
           [1 := ([genesis_example, mined_example] ! 1)(''previous_hash'' \<mapsto> PStr ''ff'')])
        = Inr False"
    by blast
  from valid t1 t2 show ?thesis by blast
qed

text \<open>
  C2, as the code has it in blockchain.py. The validator makes one pass from the second
  block on. For each block it compares \<open>previous_hash\<close> with the recomputed hash of the
  block before, and then tests the digest of \<open>proof\<^sup>2 - previous proof\<^sup>2\<close> for seven
  leading zeros, which is the puzzle the mining search solved; it does not hash the current
  block. It returns \<open>False\<close> at the first block that fails one of the two tests, and \<open>True\<close>
  exactly when every block passes both.
\<close>

theorem validator_single_pass:
  "(blockchain_is_chain_valid lib chn = Inr True \<longleftrightarrow>
      chn \<noteq> [] \<and> (\<forall>i. 0 < i \<and> i < length chn \<longrightarrow>
        (\<exists>h c p. blockchain_hash lib (chn ! (i - 1)) = Inr h
           \<and> (chn ! i) ''previous_hash'' = Some (PStr h)
           \<and> (chn ! (i - 1)) ''proof'' = Some (PInt p) \<and> (chn ! i) ''proof'' = Some (PInt c)
           \<and> proof_ok lib p c)))
   \<and> (blockchain_is_chain_valid lib chn = Inr False \<longleftrightarrow>
      (\<exists>i. 0 < i \<and> i < length chn
         \<and> check_block (blockchain_hash lib) lib (chn ! (i - 1)) (chn ! i) = Inr False
         \<and> (\<forall>k. 0 < k \<and> k < i \<longrightarrow>
               check_block (blockchain_hash lib) lib (chn ! (k - 1)) (chn ! k) = Inr True)))
   \<and> (check_block (blockchain_hash lib) lib previous_block b = Inr True \<longleftrightarrow>
      (\<exists>h c p. blockchain_hash lib previous_block = Inr h
         \<and> b ''previous_hash'' = Some (PStr h)
         \<and> previous_block ''proof'' = Some (PInt p) \<and> b ''proof'' = Some (PInt c)
         \<and> proof_ok lib p c))
   \<and> (check_block (blockchain_hash lib) lib previous_block b = Inr False \<longleftrightarrow>
      (\<exists>ph h. b ''previous_hash'' = Some ph \<and> blockchain_hash lib previous_block = Inr h
         \<and> (ph \<noteq> PStr h
             \<or> (\<exists>c p. previous_block ''proof'' = Some (PInt p) \<and> b ''proof'' = Some (PInt c)
                   \<and> \<not> proof_ok lib p c))))"
proof (intro conjI)
  show "blockchain_is_chain_valid lib chn = Inr True \<longleftrightarrow>
      chn \<noteq> [] \<and> (\<forall>i. 0 < i \<and> i < length chn \<longrightarrow>
        (\<exists>h c p. blockchain_hash lib (chn ! (i - 1)) = Inr h
           \<and> (chn ! i) ''previous_hash'' = Some (PStr h)
           \<and> (chn ! (i - 1)) ''proof'' = Some (PInt p) \<and> (chn ! i) ''proof'' = Some (PInt c)
           \<and> proof_ok lib p c))"
    unfolding blockchain_is_chain_valid_def is_chain_valid_True check_block_True_iff
    by (rule refl)
  show "blockchain_is_chain_valid lib chn = Inr False \<longleftrightarrow>
      (\<exists>i. 0 < i \<and> i < length chn
         \<and> check_block (blockchain_hash lib) lib (chn ! (i - 1)) (chn ! i) = Inr False
         \<and> (\<forall>k. 0 < k \<and> k < i \<longrightarrow>
               check_block (blockchain_hash lib) lib (chn ! (k - 1)) (chn ! k) = Inr True))"
    unfolding blockchain_is_chain_valid_def by (rule is_chain_valid_stop) simp_all
  show "check_block (blockchain_hash lib) lib previous_block b = Inr True \<longleftrightarrow>
      (\<exists>h c p. blockchain_hash lib previous_block = Inr h
         \<and> b ''previous_hash'' = Some (PStr h)
         \<and> previous_block ''proof'' = Some (PInt p) \<and> b ''proof'' = Some (PInt c)
         \<and> proof_ok lib p c)"
    by (rule check_block_True_iff)
  show "check_block (blockchain_hash lib) lib previous_block b = Inr False \<longleftrightarrow>
      (\<exists>ph h. b ''previous_hash'' = Some ph \<and> blockchain_hash lib previous_block = Inr h
         \<and> (ph \<noteq> PStr h
             \<or> (\<exists>c p. previous_block ''proof'' = Some (PInt p) \<and> b ''proof'' = Some (PInt c)
                   \<and> \<not> proof_ok lib p c)))"
    by (rule check_block_False_iff)
qed

theorem validator_single_pass_witness:
  "blockchain_is_chain_valid example_lib [genesis_example2, mined_example2] = Inr True
   \<and> blockchain_is_chain_valid example_lib
        [genesis_example2, mined_example2(''proof'' \<mapsto> PInt 7)] = Inr False"
proof
  let ?h = "''0000000000000000000000000000000000000000000000000000000000000000''"
  let ?bad = "mined_example2(''proof'' \<mapsto> PInt 7)"
  have fields: "mined_example2 ''previous_hash'' = Some (PStr ?h)"
    "genesis_example2 ''proof'' = Some (PInt 1)" "mined_example2 ''proof'' = Some (PInt 8)"
    by (simp_all add: genesis_example2_def mined_example2_def)
  have passes: "\<exists>h c p. blockchain_hash example_lib genesis_example2 = Inr h
      \<and> mined_example2 ''previous_hash'' = Some (PStr h)
      \<and> genesis_example2 ''proof'' = Some (PInt p) \<and> mined_example2 ''proof'' = Some (PInt c)
      \<and> proof_ok example_lib p c"
    using fields genesis_example2_hash example_proof_search(8) by blast
  show "blockchain_is_chain_valid example_lib [genesis_example2, mined_example2] = Inr True"
  proof (rule iffD2 [OF validator_single_pass
        [of example_lib "[genesis_example2, mined_example2]", THEN conjunct1]],
      intro conjI allI impI)
    fix i :: nat
    assume "0 < i \<and> i < length [genesis_example2, mined_example2]"
    then have i: "i = 1" by auto
    show "\<exists>h c p. blockchain_hash example_lib ([genesis_example2, mined_example2] ! (i - 1)) = Inr h
           \<and> ([genesis_example2, mined_example2] ! i) ''previous_hash'' = Some (PStr h)
           \<and> ([genesis_example2, mined_example2] ! (i - 1)) ''proof'' = Some (PInt p)
           \<and> ([genesis_example2, mined_example2] ! i) ''proof'' = Some (PInt c)
           \<and> proof_ok example_lib p c"
      unfolding i using passes by simp
  qed simp
  have fails: "\<exists>ph h. ?bad ''previous_hash'' = Some ph
      \<and> blockchain_hash example_lib genesis_example2 = Inr h
      \<and> (ph \<noteq> PStr h
          \<or> (\<exists>c p. genesis_example2 ''proof'' = Some (PInt p) \<and> ?bad ''proof'' = Some (PInt c)
                \<and> \<not> proof_ok example_lib p c))"
  proof (intro exI conjI disjI2)
    show "?bad ''previous_hash'' = Some (PStr ?h)" using fields(1) by simp
    show "blockchain_hash example_lib genesis_example2 = Inr ?h" by (rule genesis_example2_hash)
    show "genesis_example2 ''proof'' = Some (PInt 1)" by (rule fields(2))
    show "?bad ''proof'' = Some (PInt 7)" by simp
    show "\<not> proof_ok example_lib 1 7" by (rule example_proof_search(7))
  qed
  have first: "check_block (blockchain_hash example_lib) example_lib genesis_example2 ?bad
      = Inr False"
    by (rule iffD2 [OF validator_single_pass
          [of example_lib "[]" genesis_example2 ?bad, THEN conjunct2, THEN conjunct2,
            THEN conjunct2]])
       (rule fails)
  show "blockchain_is_chain_valid example_lib [genesis_example2, ?bad] = Inr False"
  proof (rule iffD2 [OF validator_single_pass
        [of example_lib "[genesis_example2, ?bad]", THEN conjunct2, THEN conjunct1]],
      intro exI [of _ 1] conjI allI impI)
    show "check_block (blockchain_hash example_lib) example_lib
            ([genesis_example2, ?bad] ! (1 - 1)) ([genesis_example2, ?bad] ! 1) = Inr False"
      using first by simp
    fix k :: nat
    assume "0 < k \<and> k < 1"
    then show "check_block (blockchain_hash example_lib) example_lib
            ([genesis_example2, ?bad] ! (k - 1)) ([genesis_example2, ?bad] ! k) = Inr True"
      by auto
  qed simp_all
qed

theorem validator_ignores_block_hash:
  "blockchain_is_chain_valid example_lib [genesis_example2, mined_example2] = Inr True
   \<and> blockchain_hash example_lib ([genesis_example2, mined_example2] ! 1)
       = Inr ''2000000000000000000000000000000000000000000000000000000000000000''
   \<and> \<not> hash_meets_prefix example_lib ([genesis_example2, mined_example2] ! 1)"
  using blockchain_validity_closure [OF mined_example2_requests] mined_example2_hash
  by (simp add: hash_meets_prefix_def)


section \<open>What mining and submitting change\<close>

lemma bitcoin_proof_of_work_effect:
  assumes "bitcoin_proof_of_work lib self now = Some (Inr (b, self'))"
  shows "self' = self\<lparr>chain_list := chain_list self @ [b]\<rparr>"
proof -
  from assms obtain b' where "Some (Inr (b', self\<lparr>chain_list := chain_list self @ [b']\<rparr>))
      = Some (Inr (b, self'))"
    unfolding bitcoin_proof_of_work_def Let_def
    by (auto split: sum.splits option.splits pyval.splits)
  then show ?thesis by auto
qed

lemma bitcoin_proof_of_work_block:
  assumes "bitcoin_proof_of_work lib self now = Some (Inr (b, self'))"
  shows "b ''transactions'' = Some (PList (current_transactions self))"
proof -
  from assms obtain h target b0 where "proof_of_work_loop lib self target
      (create_block lib self now 1 h) = Some (Inr b)"
    unfolding bitcoin_proof_of_work_def Let_def
    by (auto split: sum.splits option.splits pyval.splits)
  from proof_of_work_loop_sound [OF this, rule_format, OF refl]
  obtain k where "b = create_block lib self now (1 + int k) h" by auto
  then show ?thesis by (simp add: create_block_def)
qed

lemma pool_shared_init: "pool_shared (bitcoin_init lib now)"
  by (simp add: pool_shared_def bitcoin_init_def Let_def create_block_def)

lemma pool_shared_new_transaction: "pool_shared self \<Longrightarrow> pool_shared (new_transaction self tr_str)"
  by (simp add: pool_shared_def new_transaction_def)

lemma pool_shared_proof_of_work:
  assumes "pool_shared self" and "bitcoin_proof_of_work lib self now = Some (Inr (b, self'))"
  shows "pool_shared self'"
  using assms(1) bitcoin_proof_of_work_block [OF assms(2)]
  unfolding bitcoin_proof_of_work_effect [OF assms(2)] pool_shared_def by simp

lemma pool_shared_requests:
  "pool_shared self \<Longrightarrow> bitcoin_requests lib self rs = Some (Inr self') \<Longrightarrow> pool_shared self'"
proof (induction rs arbitrary: self)
  case Nil
  then show ?case by simp
next
  case (Cons r rs)
  show ?case
  proof (cases r)
    case (MineBlock now)
    with Cons.prems(2) obtain b self1
      where step: "bitcoin_proof_of_work lib self now = Some (Inr (b, self1))"
        and rest: "bitcoin_requests lib self1 rs = Some (Inr self')"
      by (auto split: option.splits sum.splits)
    from Cons.IH [OF pool_shared_proof_of_work [OF Cons.prems(1) step] rest]
    show ?thesis .
  next
    case (NewTransaction tr_str)
    with Cons.prems(2)
    have rest: "bitcoin_requests lib (new_transaction self tr_str) rs = Some (Inr self')"
      by simp
    from Cons.IH [OF pool_shared_new_transaction [OF Cons.prems(1)] rest]
    show ?thesis .
  qed
qed

lemma pool_after_requests:
  "bitcoin_requests lib self rs = Some (Inr self') \<Longrightarrow>
   current_transactions self' = current_transactions self
   \<and> heap self' (current_transactions self') = heap self (current_transactions self) @ submitted rs"
proof (induction rs arbitrary: self)
  case Nil
  then show ?case by simp
next
  case (Cons r rs)
  show ?case
  proof (cases r)
    case (MineBlock now)
    with Cons.prems obtain b self1
      where step: "bitcoin_proof_of_work lib self now = Some (Inr (b, self1))"
        and rest: "bitcoin_requests lib self1 rs = Some (Inr self')"
      by (auto split: option.splits sum.splits)
    from Cons.IH [OF rest] show ?thesis
      unfolding bitcoin_proof_of_work_effect [OF step] MineBlock by auto
  next
    case (NewTransaction tr_str)
    with Cons.prems
    have rest: "bitcoin_requests lib (new_transaction self tr_str) rs = Some (Inr self')"
      by simp
    from Cons.IH [OF rest] show ?thesis
      unfolding NewTransaction by (auto simp: new_transaction_def)
  qed
qed

lemma mine_block_effect:
  assumes "mine_block lib chn now = Some (Inr (b, chn'))"
  shows "chn' = chn @ [b]"
    and "\<exists>p pf. last chn ''proof'' = Some (PInt p) \<and> blockchain_proof_of_work lib p = Some pf
           \<and> b ''proof'' = Some (PInt pf)"
proof -
  from assms obtain p pf h where p: "last chn ''proof'' = Some (PInt p)"
    and pf: "blockchain_proof_of_work lib p = Some pf"
    and r: "create_blockchain chn now pf h = (b, chn')"
    unfolding mine_block_def get_previous_block_def getitem_def blockchain_hash_def
    by (auto split: sum.splits option.splits pyval.splits if_splits)
  from r have b: "b = fst (create_blockchain chn now pf h)"
    and chn': "chn' = snd (create_blockchain chn now pf h)"
    by simp_all
  show "chn' = chn @ [b]"
    unfolding b chn' by (simp add: create_blockchain_def Let_def)
  have "b ''proof'' = Some (PInt pf)"
    unfolding b by (simp add: create_blockchain_def Let_def)
  with p pf show "\<exists>p pf. last chn ''proof'' = Some (PInt p)
      \<and> blockchain_proof_of_work lib p = Some pf \<and> b ''proof'' = Some (PInt pf)"
    by blast
qed


lemma chain_length_requests:
  "bitcoin_requests lib self rs = Some (Inr self') \<Longrightarrow>
   length (chain_list self') = length (chain_list self) + mining_requests rs"
proof (induction rs arbitrary: self)
  case Nil
  then show ?case by simp
next
  case (Cons r rs)
  show ?case
  proof (cases r)
    case (MineBlock now)
    with Cons.prems obtain b self1
      where step: "bitcoin_proof_of_work lib self now = Some (Inr (b, self1))"
        and rest: "bitcoin_requests lib self1 rs = Some (Inr self')"
      by (auto split: option.splits sum.splits)
    from Cons.IH [OF rest] show ?thesis
      unfolding bitcoin_proof_of_work_effect [OF step] MineBlock by simp
  next
    case (NewTransaction tr_str)
    with Cons.prems
    have rest: "bitcoin_requests lib (new_transaction self tr_str) rs = Some (Inr self')"
      by simp
    from Cons.IH [OF rest] show ?thesis
      unfolding NewTransaction by (simp add: new_transaction_def)
  qed
qed

text \<open>
  C4, as the code has it. In bitcoin.py \<open>proof_of_work\<close> itself appends the block it
  returns to the chain; it changes nothing else of the ledger: the blocks already in the
  chain, the pool and the contents of the pool stay. In blockchain.py \<open>proof_of_work\<close>
  only returns a proof number, and the route \<open>mine_block\<close> that called it appends the block,
  through \<open>create_blockchain\<close>.
\<close>

theorem proof_of_work_appends:
  "(bitcoin_proof_of_work lib self now = Some (Inr (b, self')) \<longrightarrow>
      chain_list self' = chain_list self @ [b]
      \<and> current_transactions self' = current_transactions self
      \<and> heap self' = heap self)
   \<and> (mine_block lib chn now' = Some (Inr (b', chn')) \<longrightarrow>
      chn' = chn @ [b']
      \<and> (\<exists>p pf. last chn ''proof'' = Some (PInt p)
            \<and> blockchain_proof_of_work lib p = Some pf \<and> b' ''proof'' = Some (PInt pf)))"
proof (intro conjI impI)
  assume "bitcoin_proof_of_work lib self now = Some (Inr (b, self'))"
  then have eq: "self' = self\<lparr>chain_list := chain_list self @ [b]\<rparr>"
    by (rule bitcoin_proof_of_work_effect)
  show "chain_list self' = chain_list self @ [b]" unfolding eq by simp
  show "current_transactions self' = current_transactions self" unfolding eq by simp
  show "heap self' = heap self" unfolding eq by simp
next
  assume mined: "mine_block lib chn now' = Some (Inr (b', chn'))"
  show "chn' = chn @ [b']" by (rule mine_block_effect(1) [OF mined])
  show "\<exists>p pf. last chn ''proof'' = Some (PInt p)
      \<and> blockchain_proof_of_work lib p = Some pf \<and> b' ''proof'' = Some (PInt pf)"
    by (rule mine_block_effect(2) [OF mined])
qed

theorem proof_of_work_appends_witness:
  "bitcoin_proof_of_work example_lib fresh_ledger ''2021-05-05 10:00:07.000003''
     = Some (Inr (mined_example, mined_ledger))
   \<and> chain_list mined_ledger = chain_list fresh_ledger @ [mined_example]
   \<and> heap mined_ledger = heap fresh_ledger
   \<and> mine_block example_lib [genesis_example2] ''2021-05-05 10:00:07.000003''
       = Some (Inr (mined_example2, [genesis_example2, mined_example2]))
   \<and> [genesis_example2, mined_example2] = [genesis_example2] @ [mined_example2]"
  using proof_of_work_appends [of example_lib fresh_ledger "''2021-05-05 10:00:07.000003''"
      mined_example mined_ledger "[genesis_example2]" "''2021-05-05 10:00:07.000003''"
      mined_example2 "[genesis_example2, mined_example2]"]
    mined_ledger_proof_of_work mined_example2_mine_block
  by simp

theorem proof_of_work_mutates_chain:
  "bitcoin_proof_of_work example_lib fresh_ledger ''2021-05-05 10:00:07.000003''
     = Some (Inr (mined_example, mined_ledger))
   \<and> chain_list fresh_ledger = [genesis_example]
   \<and> chain_list mined_ledger = [genesis_example, mined_example]
   \<and> chain_list mined_ledger \<noteq> chain_list fresh_ledger"
  using mined_ledger_proof_of_work by (simp add: fresh_ledger_def mined_ledger_def)

text \<open>
  C1. In bitcoin.py the validator does not accept the chains the ledger produces: as soon
  as one block has been mined, \<open>is_chain_valid\<close> passes the link test of the second block
  and then reads the key \<open>proof\<close>, which the blocks of this file do not have (they have
  \<open>nonce\<close>), and raises \<open>KeyError\<close>. Only the chain of the genesis block alone is reported
  valid. In blockchain.py every chain the ledger produces is reported valid.
\<close>

theorem validator_on_mined_chains:
  "(bitcoin_requests lib (bitcoin_init lib now) rs = Some (Inr self) \<longrightarrow>
      bitcoin_is_chain_valid lib self (chain_list self)
        = (if mining_requests rs = 0 then Inr True else Inl (KeyError ''proof'')))
   \<and> (blockchain_requests lib (blockchain_init now') ts = Some (Inr chn) \<longrightarrow>
      blockchain_is_chain_valid lib chn = Inr True)"
proof (intro conjI impI)
  assume run: "bitcoin_requests lib (bitcoin_init lib now) rs = Some (Inr self)"
  have len: "length (chain_list self) = 1 + mining_requests rs"
    using chain_length_requests [OF run] by (simp add: bitcoin_init_def Let_def)
  show "bitcoin_is_chain_valid lib self (chain_list self)
        = (if mining_requests rs = 0 then Inr True else Inl (KeyError ''proof''))"
  proof (cases "mining_requests rs = 0")
    case True
    with len obtain g where "chain_list self = [g]"
      by (cases "chain_list self") auto
    with True show ?thesis
      by (simp add: bitcoin_is_chain_valid_def is_chain_valid_singleton)
  next
    case False
    with len have "2 \<le> length (chain_list self)" by simp
    from bitcoin_validator_raises
      [OF bitcoin_linked_requests [OF bitcoin_linked_init run] this] False
    show ?thesis by simp
  qed
next
  assume "blockchain_requests lib (blockchain_init now') ts = Some (Inr chn)"
  then show "blockchain_is_chain_valid lib chn = Inr True"
    by (rule blockchain_validity_closure)
qed

theorem validator_on_mined_chains_witness:
  "bitcoin_requests example_lib (bitcoin_init example_lib ''2021-05-05 10:00:00.000001'')
     [MineBlock ''2021-05-05 10:00:07.000003''] = Some (Inr mined_ledger)
   \<and> bitcoin_is_chain_valid example_lib mined_ledger (chain_list mined_ledger)
       = Inl (KeyError ''proof'')
   \<and> blockchain_requests example_lib (blockchain_init ''2021-05-05 10:00:00.000001'')
        [''2021-05-05 10:00:07.000003''] = Some (Inr [genesis_example2, mined_example2])
   \<and> blockchain_is_chain_valid example_lib [genesis_example2, mined_example2] = Inr True"
  using validator_on_mined_chains [of example_lib "''2021-05-05 10:00:00.000001''"
      "[MineBlock ''2021-05-05 10:00:07.000003'']" mined_ledger
      "''2021-05-05 10:00:00.000001''" "[''2021-05-05 10:00:07.000003'']"
      "[genesis_example2, mined_example2]"]
    mined_ledger_requests mined_example2_requests
  by simp

text \<open>
  C3. In bitcoin.py a block does not hold a copy of the pool: its \<open>transactions\<close> entry is
  the pool list itself. So the transaction sequence of every block of the chain, the
  genesis block included, is at every moment the current content of the pool, and a later
  submission adds to it. The dictionary of the block is not touched: \<open>transactions_hash\<close>
  keeps the digest computed at creation, and no longer matches.
\<close>

theorem sealed_blocks_share_pool:
  "bitcoin_requests lib (bitcoin_init lib now) rs = Some (Inr self) \<and> b \<in> set (chain_list self)
   \<longrightarrow> transactions_of self b = Some (heap self (current_transactions self))
     \<and> chain_list (new_transaction self tr_str) = chain_list self
     \<and> transactions_of (new_transaction self tr_str) b
         = Some (heap self (current_transactions self) @ [tr_str])"
proof (intro impI)
  assume a: "bitcoin_requests lib (bitcoin_init lib now) rs = Some (Inr self)
      \<and> b \<in> set (chain_list self)"
  then have "pool_shared self"
    using pool_shared_requests [OF pool_shared_init] by blast
  with a have "b ''transactions'' = Some (PList (current_transactions self))"
    by (simp add: pool_shared_def)
  then show "transactions_of self b = Some (heap self (current_transactions self))
     \<and> chain_list (new_transaction self tr_str) = chain_list self
     \<and> transactions_of (new_transaction self tr_str) b
         = Some (heap self (current_transactions self) @ [tr_str])"
    by (simp add: transactions_of_def new_transaction_def)
qed

theorem sealed_blocks_share_pool_witness:
  "bitcoin_requests example_lib (bitcoin_init example_lib ''2021-05-05 10:00:00.000001'')
     [MineBlock ''2021-05-05 10:00:07.000003''] = Some (Inr mined_ledger)
   \<and> transactions_of mined_ledger mined_example = Some []
   \<and> transactions_of (new_transaction mined_ledger ''tx1'') mined_example = Some [''tx1'']
   \<and> transactions_of (new_transaction mined_ledger ''tx1'') genesis_example = Some [''tx1'']"
proof -
  let ?now = "''2021-05-05 10:00:00.000001''"
  let ?rs = "[MineBlock ''2021-05-05 10:00:07.000003'']"
  note run = mined_ledger_requests
  have inside: "mined_example \<in> set (chain_list mined_ledger)"
    "genesis_example \<in> set (chain_list mined_ledger)"
    by (simp_all add: mined_ledger_def)
  have pool: "heap mined_ledger (current_transactions mined_ledger) = []"
    by (simp add: mined_ledger_def)
  from sealed_blocks_share_pool [of example_lib ?now ?rs mined_ledger mined_example "''tx1''"]
    run inside(1)
  have "transactions_of mined_ledger mined_example
          = Some (heap mined_ledger (current_transactions mined_ledger))"
    "transactions_of (new_transaction mined_ledger ''tx1'') mined_example
          = Some (heap mined_ledger (current_transactions mined_ledger) @ [''tx1''])"
    by blast+
  then have mined: "transactions_of mined_ledger mined_example = Some []"
    "transactions_of (new_transaction mined_ledger ''tx1'') mined_example = Some [''tx1'']"
    unfolding pool by simp_all
  from sealed_blocks_share_pool [of example_lib ?now ?rs mined_ledger genesis_example "''tx1''"]
    run inside(2)
  have "transactions_of (new_transaction mined_ledger ''tx1'') genesis_example
          = Some (heap mined_ledger (current_transactions mined_ledger) @ [''tx1''])"
    by blast
  then have genesis: "transactions_of (new_transaction mined_ledger ''tx1'') genesis_example
      = Some [''tx1'']"
    unfolding pool by simp
  from run mined genesis show ?thesis by blast
qed

text \<open>
  C5. In bitcoin.py nothing ever removes a record from the pool: after any run the pool
  holds every transaction submitted so far, mined or not, and every block of the chain
  reads that same list. A record submitted once is therefore in every block, not in at
  most one.
\<close>

theorem pool_never_cleared:
  "(bitcoin_requests lib (bitcoin_init lib now) rs = Some (Inr self) \<longrightarrow>
      heap self (current_transactions self) = submitted rs)
   \<and> (bitcoin_requests lib (bitcoin_init lib now) rs = Some (Inr self)
        \<and> b \<in> set (chain_list self) \<longrightarrow>
      transactions_of self b = Some (submitted rs))"
proof (intro conjI impI)
  assume run: "bitcoin_requests lib (bitcoin_init lib now) rs = Some (Inr self)"
  from pool_after_requests [OF run]
  show "heap self (current_transactions self) = submitted rs"
    by (auto simp: bitcoin_init_def Let_def)
next
  assume a: "bitcoin_requests lib (bitcoin_init lib now) rs = Some (Inr self)
      \<and> b \<in> set (chain_list self)"
  then have run: "bitcoin_requests lib (bitcoin_init lib now) rs = Some (Inr self)" by simp
  from pool_after_requests [OF run]
  have pool: "heap self (current_transactions self) = submitted rs"
    by (auto simp: bitcoin_init_def Let_def)
  from pool_shared_requests [OF pool_shared_init run] a
  have "b ''transactions'' = Some (PList (current_transactions self))"
    by (simp add: pool_shared_def)
  with pool show "transactions_of self b = Some (submitted rs)"
    by (simp add: transactions_of_def)
qed

theorem pool_never_cleared_witness:
  "bitcoin_requests example_lib (bitcoin_init example_lib ''2021-05-05 10:00:00.000001'')
     [NewTransaction ''tx1'', MineBlock ''2021-05-05 10:00:07.000003'',
      MineBlock ''2021-05-05 10:00:09.000004''] = Some (Inr resealed_ledger)
   \<and> heap resealed_ledger (current_transactions resealed_ledger) = [''tx1'']
   \<and> transactions_of resealed_ledger sealed_example = Some [''tx1'']
   \<and> transactions_of resealed_ledger resealed_example = Some [''tx1'']"
proof -
  let ?now = "''2021-05-05 10:00:00.000001''"
  let ?rs = "[NewTransaction ''tx1'', MineBlock ''2021-05-05 10:00:07.000003'',
      MineBlock ''2021-05-05 10:00:09.000004'']"
  note run = resealed_ledger_requests
  have inside: "sealed_example \<in> set (chain_list resealed_ledger)"
    "resealed_example \<in> set (chain_list resealed_ledger)"
    by (simp_all add: resealed_ledger_def)
  have sub: "submitted ?rs = [''tx1'']" by simp
  from pool_never_cleared [of example_lib ?now ?rs resealed_ledger sealed_example]
    run inside(1)
  have "heap resealed_ledger (current_transactions resealed_ledger) = submitted ?rs"
    "transactions_of resealed_ledger sealed_example = Some (submitted ?rs)"
    by blast+
  then have first: "heap resealed_ledger (current_transactions resealed_ledger) = [''tx1'']"
    "transactions_of resealed_ledger sealed_example = Some [''tx1'']"
    unfolding sub by simp_all
  from pool_never_cleared [of example_lib ?now ?rs resealed_ledger resealed_example]
    run inside(2)
  have "transactions_of resealed_ledger resealed_example = Some (submitted ?rs)"
    by blast
  then have second: "transactions_of resealed_ledger resealed_example = Some [''tx1'']"
    unfolding sub by simp
  from run first second show ?thesis by blast
qed


section \<open>The first block in the validator's pass\<close>

lemma is_chain_valid_loop_Cons:
  "is_chain_valid_loop hsh lib (g # chn) prev (Suc i) = is_chain_valid_loop hsh lib chn prev i"
proof (induction hsh lib chn prev i rule: is_chain_valid_loop.induct)
  case (1 hsh lib chn prev i)
  show ?case
  proof (cases "i < length chn")
    case False
    then have "\<not> Suc i < length (g # chn)" by simp
    then have "is_chain_valid_loop hsh lib (g # chn) prev (Suc i) = Inr True"
      by (rule is_chain_valid_loop_end)
    with False show ?thesis by (simp add: is_chain_valid_loop_end)
  next
    case True
    then have less: "Suc i < length (g # chn)" by simp
    note unfolds = is_chain_valid_loop_unfold [OF less] is_chain_valid_loop_unfold [OF True]
    show ?thesis
    proof (cases "check_block hsh lib prev (chn ! i)")
      case (Inl e)
      then show ?thesis by (simp add: unfolds)
    next
      case (Inr ok)
      show ?thesis
      proof (cases ok)
        case True
        from "1.IH" [OF \<open>i < length chn\<close> refl Inr True]
        show ?thesis using Inr True by (simp add: unfolds)
      next
        case False
        with Inr show ?thesis by (simp add: unfolds)
      qed
    qed
  qed
qed

lemma is_chain_valid_second:
  "is_chain_valid hsh lib (g # b # bs) =
     (case check_block hsh lib g b of
        Inl e \<Rightarrow> Inl e
      | Inr ok \<Rightarrow> if ok then is_chain_valid hsh lib (b # bs) else Inr False)"
proof -
  have less: "Suc 0 < length (g # b # bs)" by simp
  have shift: "is_chain_valid_loop hsh lib (g # b # bs) b (Suc (Suc 0))
      = is_chain_valid_loop hsh lib (b # bs) b (Suc 0)"
    by (rule is_chain_valid_loop_Cons)
  show ?thesis
  proof (cases "check_block hsh lib g b")
    case (Inl e)
    then show ?thesis
      by (simp add: is_chain_valid_def is_chain_valid_loop_unfold [OF less])
  next
    case (Inr ok)
    with shift show ?thesis
      by (cases ok) (simp_all add: is_chain_valid_def is_chain_valid_loop_unfold [OF less])
  qed
qed

lemma is_chain_valid_first_mismatch:
  assumes "hsh g = Inr h" and "b ''previous_hash'' = Some ph" and "ph \<noteq> PStr h"
  shows "is_chain_valid hsh lib (g # b # bs) = Inr False"
proof -
  have "check_block hsh lib g b = Inr False"
    using assms by (rule check_block_mismatch [where hsh = hsh and previous_block = g])
  then show ?thesis by (simp add: is_chain_valid_second)
qed


lemma genesis_example2_index_hash:
  "blockchain_hash example_lib (genesis_example2(''index'' \<mapsto> PInt 2)) =
     Inr ''2000000000000000000000000000000000000000000000000000000000000000''"
  by (simp add: blockchain_hash_def genesis_example2_def example_json)

lemma genesis_example_nonce_hash:
  "bitcoin_hash example_lib self (genesis_example(''nonce'' \<mapsto> PInt 2)) =
     Inr ''8000000000000000000000000000000000000000000000000000000000000000''"
  by (simp add: bitcoin_hash_def getitem_def py_str_def genesis_example_def example_text)

lemma mined_examples_previous_hash:
  "mined_example2 ''previous_hash''
     = Some (PStr ''0000000000000000000000000000000000000000000000000000000000000000'')"
  "mined_example ''previous_hash''
     = Some (PStr ''6000000000000000000000000000000000000000000000000000000000000000'')"
  by (simp_all add: mined_example2_def mined_example_def)

text \<open>
  C10, as the code has it. A chain of one block is valid whatever the block holds: the loop
  body is never entered. In a longer chain the first block is never the block under test,
  so its index, its \<open>previous_hash\<close> and its own proof of work are not tested; but its
  contents are read, as the previous block of the first pass: the verdict on
  \<open>g # b # bs\<close> is the loop body for \<open>b\<close> against \<open>g\<close>, followed by the verdict on
  \<open>b # bs\<close>. So the verdict depends on the first block through its hash and its \<open>proof\<close>
  entry, and only through them: two first blocks that agree on both give the same verdict
  (in bitcoin.py the hash leaves out \<open>index\<close>, \<open>nbits\<close> and \<open>transactions\<close>; in blockchain.py
  it covers the whole block), and a first block whose hash is not the one the second block
  stores makes the validator return \<open>False\<close>.
\<close>

theorem singleton_chain_valid:
  "bitcoin_is_chain_valid lib self [b] = Inr True
   \<and> blockchain_is_chain_valid lib [b] = Inr True
   \<and> bitcoin_is_chain_valid lib self chn = is_chain_valid (bitcoin_hash lib self) lib chn
   \<and> blockchain_is_chain_valid lib chn = is_chain_valid (blockchain_hash lib) lib chn
   \<and> is_chain_valid hsh lib (g # b # bs) =
       (case check_block hsh lib g b of
          Inl e \<Rightarrow> Inl e
        | Inr ok \<Rightarrow> if ok then is_chain_valid hsh lib (b # bs) else Inr False)
   \<and> (hsh g = hsh g' \<and> g ''proof'' = g' ''proof'' \<longrightarrow>
        is_chain_valid hsh lib (g # bs) = is_chain_valid hsh lib (g' # bs))
   \<and> (hsh g = Inr h \<and> b ''previous_hash'' = Some ph \<and> ph \<noteq> PStr h \<longrightarrow>
        is_chain_valid hsh lib (g # b # bs) = Inr False)"
proof (intro conjI impI)
  show "bitcoin_is_chain_valid lib self [b] = Inr True"
    unfolding bitcoin_is_chain_valid_def by (rule is_chain_valid_singleton)
  show "blockchain_is_chain_valid lib [b] = Inr True"
    unfolding blockchain_is_chain_valid_def by (rule is_chain_valid_singleton)
  show "bitcoin_is_chain_valid lib self chn = is_chain_valid (bitcoin_hash lib self) lib chn"
    by (rule bitcoin_is_chain_valid_def)
  show "blockchain_is_chain_valid lib chn = is_chain_valid (blockchain_hash lib) lib chn"
    by (rule blockchain_is_chain_valid_def)
  show "is_chain_valid hsh lib (g # b # bs) =
       (case check_block hsh lib g b of
          Inl e \<Rightarrow> Inl e
        | Inr ok \<Rightarrow> if ok then is_chain_valid hsh lib (b # bs) else Inr False)"
    by (rule is_chain_valid_second)
next
  assume "hsh g = hsh g' \<and> g ''proof'' = g' ''proof''"
  then show "is_chain_valid hsh lib (g # bs) = is_chain_valid hsh lib (g' # bs)"
    by (intro is_chain_valid_first_cong) simp_all
next
  assume "hsh g = Inr h \<and> b ''previous_hash'' = Some ph \<and> ph \<noteq> PStr h"
  then show "is_chain_valid hsh lib (g # b # bs) = Inr False"
    by (intro is_chain_valid_first_mismatch [where h = h and ph = ph]) simp_all
qed

theorem singleton_chain_valid_witness:
  "bitcoin_is_chain_valid example_lib fresh_ledger [Map.empty] = Inr True
   \<and> blockchain_is_chain_valid example_lib [Map.empty] = Inr True
   \<and> bitcoin_is_chain_valid example_lib mined_ledger [genesis_example, mined_example]
       = bitcoin_is_chain_valid example_lib mined_ledger
           [genesis_example(''index'' \<mapsto> PInt 7), mined_example]
   \<and> bitcoin_is_chain_valid example_lib mined_ledger
        [genesis_example(''nonce'' \<mapsto> PInt 2), mined_example] = Inr False
   \<and> blockchain_is_chain_valid example_lib
        [genesis_example2(''index'' \<mapsto> PInt 2), mined_example2] = Inr False"
proof -
  let ?H = "bitcoin_hash example_lib mined_ledger"
  let ?J = "blockchain_hash example_lib"
  let ?h0 = "''0000000000000000000000000000000000000000000000000000000000000000''"
  let ?h2 = "''2000000000000000000000000000000000000000000000000000000000000000''"
  let ?h6 = "''6000000000000000000000000000000000000000000000000000000000000000''"
  let ?h8 = "''8000000000000000000000000000000000000000000000000000000000000000''"
  have one: "bitcoin_is_chain_valid example_lib fresh_ledger [Map.empty] = Inr True"
    "blockchain_is_chain_valid example_lib [Map.empty] = Inr True"
    using singleton_chain_valid [where lib = example_lib and self = fresh_ledger
        and b = Map.empty]
    by blast+
  have same_hash: "?H genesis_example = ?H (genesis_example(''index'' \<mapsto> PInt 7))"
    by (simp add: bitcoin_hash_def getitem_def genesis_example_def)
  have same_proof: "genesis_example ''proof'' = (genesis_example(''index'' \<mapsto> PInt 7)) ''proof''"
    by simp
  have cong: "is_chain_valid ?H example_lib (genesis_example # [mined_example])
      = is_chain_valid ?H example_lib (genesis_example(''index'' \<mapsto> PInt 7) # [mined_example])"
    using singleton_chain_valid [where lib = example_lib and hsh = ?H
        and g = genesis_example and g' = "genesis_example(''index'' \<mapsto> PInt 7)"
        and bs = "[mined_example]"]
      same_hash same_proof
    by blast
  have other: "PStr ?h6 \<noteq> PStr ?h8" "PStr ?h0 \<noteq> PStr ?h2" by simp_all
  have rejected: "is_chain_valid ?H example_lib
      (genesis_example(''nonce'' \<mapsto> PInt 2) # mined_example # []) = Inr False"
    using singleton_chain_valid [where lib = example_lib and hsh = ?H
        and g = "genesis_example(''nonce'' \<mapsto> PInt 2)" and b = mined_example
        and bs = "[]" and h = ?h8 and ph = "PStr ?h6"]
      genesis_example_nonce_hash [of mined_ledger] mined_examples_previous_hash(2) other(1)
    by blast
  have rejected2: "is_chain_valid ?J example_lib
      (genesis_example2(''index'' \<mapsto> PInt 2) # mined_example2 # []) = Inr False"
    using singleton_chain_valid [where lib = example_lib and hsh = ?J
        and g = "genesis_example2(''index'' \<mapsto> PInt 2)" and b = mined_example2
        and bs = "[]" and h = ?h2 and ph = "PStr ?h0"]
      genesis_example2_index_hash mined_examples_previous_hash(1) other(2)
    by blast
  from one cong rejected rejected2 show ?thesis
    by (simp add: bitcoin_is_chain_valid_def blockchain_is_chain_valid_def)
qed

theorem first_block_is_read:
  "blockchain_is_chain_valid example_lib [genesis_example2, mined_example2] = Inr True
   \<and> blockchain_is_chain_valid example_lib
        [genesis_example2(''index'' \<mapsto> PInt 2), mined_example2] = Inr False
   \<and> bitcoin_is_chain_valid example_lib mined_ledger [genesis_example, mined_example]
        = Inl (KeyError ''proof'')
   \<and> bitcoin_is_chain_valid example_lib mined_ledger
        [genesis_example(''nonce'' \<mapsto> PInt 2), mined_example] = Inr False"
proof (intro conjI)
  show "blockchain_is_chain_valid example_lib [genesis_example2, mined_example2] = Inr True"
    by (rule blockchain_validity_closure [OF mined_example2_requests])
  show "blockchain_is_chain_valid example_lib
        [genesis_example2(''index'' \<mapsto> PInt 2), mined_example2] = Inr False"
    unfolding blockchain_is_chain_valid_def
    by (rule is_chain_valid_first_mismatch
          [where hsh = "blockchain_hash example_lib"
             and g = "genesis_example2(''index'' \<mapsto> PInt 2)" and b = mined_example2,
           OF genesis_example2_index_hash mined_examples_previous_hash(1)]) simp
  have "bitcoin_is_chain_valid example_lib mined_ledger (chain_list mined_ledger)
      = Inl (KeyError ''proof'')"
    by (rule bitcoin_validator_raises
          [OF bitcoin_linked_requests [OF bitcoin_linked_init mined_ledger_requests]])
       (simp add: mined_ledger_def)
  then show "bitcoin_is_chain_valid example_lib mined_ledger [genesis_example, mined_example]
      = Inl (KeyError ''proof'')"
    by (simp add: mined_ledger_def)
  show "bitcoin_is_chain_valid example_lib mined_ledger
        [genesis_example(''nonce'' \<mapsto> PInt 2), mined_example] = Inr False"
    unfolding bitcoin_is_chain_valid_def
    by (rule is_chain_valid_first_mismatch
          [where hsh = "bitcoin_hash example_lib mined_ledger"
             and g = "genesis_example(''nonce'' \<mapsto> PInt 2)" and b = mined_example,
           OF genesis_example_nonce_hash mined_examples_previous_hash(2)]) simp
qed

end
